theory Spec2Isabelle
  imports Main
begin

unbundle bit_operations_syntax

section \<open>Failures\<close>

text \<open>
  The class \<open>GF\<close> of \<open>GaloisField.hpp\<close> reports a misuse through its private member
  \<open>abort\<close>, which prints the message and throws \<open>std::exception\<close>; nothing in the
  program catches it.  GMP stops the process with a division by zero when \<open>mpz_mod\<close> or
  \<open>mpz_powm\<close> is given the modulus 0.  \<open>std::string::substr\<close> throws when the start
  position lies behind the end of the string.  Each of these is a value of \<open>error\<close>, and a
  function that can fail returns \<open>error + 'a\<close> with \<open>Inl\<close> for the failure.
\<close>

datatype error = Abort string | DivideByZero | OutOfRange

type_synonym 'a result = "error + 'a"

definition bindR :: "'a result \<Rightarrow> ('a \<Rightarrow> 'b result) \<Rightarrow> 'b result" where
  "bindR m f = (case m of Inl e \<Rightarrow> Inl e | Inr v \<Rightarrow> f v)"

section \<open>The two GMP functions the field arithmetic is built on\<close>

text \<open>
  \<open>mpz_mod (r, n, d)\<close> sets \<open>r\<close> to \<open>n mod d\<close>; the sign of the divisor is ignored and
  the result is never negative.
\<close>

definition mpz_mod :: "int \<Rightarrow> int \<Rightarrow> int result" where
  "mpz_mod n d = (if d = 0 then Inl DivideByZero else Inr (n mod \<bar>d\<bar>))"

text \<open>
  \<open>mpz_powm (r, base, exp, mod)\<close> sets \<open>r\<close> to \<open>base ^ exp mod mod\<close>, in the range from
  0 to \<open>\<bar>mod\<bar> - 1\<close>.  Its only caller, \<open>GF::pow\<close>, passes an exponent that \<open>mpz_mod\<close>
  has produced, so the exponent is a natural number here (GMP's branch for a negative
  exponent is never entered).
\<close>

definition mpz_powm :: "int \<Rightarrow> nat \<Rightarrow> int \<Rightarrow> int result" where
  "mpz_powm b e m = (if m = 0 then Inl DivideByZero else Inr (b ^ e mod \<bar>m\<bar>))"

section \<open>class GF\<close>

record gf =
  num :: int
  prime :: int

text \<open>The empty constructor leaves both \<open>mpz_class\<close> members at their initial value 0.\<close>

definition GF_empty :: gf where
  "GF_empty = \<lparr>num = 0, prime = 0\<rparr>"

text \<open>\<open>GF (mpz_class n, mpz_class p)\<close>: the value is reduced, the modulus stored as given.\<close>

definition GF :: "int \<Rightarrow> int \<Rightarrow> gf result" where
  "GF n p = bindR (mpz_mod n p) (\<lambda>r. Inr \<lparr>num = r, prime = p\<rparr>)"

definition getNum :: "gf \<Rightarrow> int" where
  "getNum a = num a"

definition getPrime :: "gf \<Rightarrow> int" where
  "getPrime a = prime a"

text \<open>\<open>operator==\<close> and \<open>operator!=\<close>, on another element and on an \<open>int\<close>.\<close>

definition gf_eq :: "gf \<Rightarrow> gf \<Rightarrow> bool" where
  "gf_eq a other \<longleftrightarrow> num a = num other \<and> prime a = prime other"

definition gf_eq_int :: "gf \<Rightarrow> int \<Rightarrow> bool result" where
  "gf_eq_int a n =
     bindR (GF (num a) (prime a)) (\<lambda>l. bindR (GF n (prime a)) (\<lambda>r. Inr (gf_eq l r)))"

definition gf_neq :: "gf \<Rightarrow> gf \<Rightarrow> bool" where
  "gf_neq a other \<longleftrightarrow> num a \<noteq> num other \<or> prime a \<noteq> prime other"

definition gf_neq_int :: "gf \<Rightarrow> int \<Rightarrow> bool result" where
  "gf_neq_int a n =
     bindR (GF (num a) (prime a)) (\<lambda>l. bindR (GF n (prime a)) (\<lambda>r. Inr (gf_neq l r)))"

text \<open>\<open>operator+\<close>, binary, with an \<open>int\<close>, and unary.\<close>

definition gf_add :: "gf \<Rightarrow> gf \<Rightarrow> gf result" where
  "gf_add a other =
     (if prime a \<noteq> prime other then Inl (Abort ''Cannot add two numbers in different Fields'')
      else bindR (mpz_mod (num a + num other) (prime a)) (\<lambda>n. GF n (prime a)))"

definition gf_add_int :: "gf \<Rightarrow> int \<Rightarrow> gf result" where
  "gf_add_int a n =
     bindR (GF (num a) (prime a)) (\<lambda>l. bindR (GF n (prime a)) (\<lambda>r. gf_add l r))"

definition gf_pos :: "gf \<Rightarrow> gf result" where
  "gf_pos a = GF (num a) (prime a)"

text \<open>\<open>operator-\<close>, binary, with an \<open>int\<close>, and unary.\<close>

definition gf_sub :: "gf \<Rightarrow> gf \<Rightarrow> gf result" where
  "gf_sub a other =
     (if prime a \<noteq> prime other
      then Inl (Abort ''Cannot subtract two numbers in different Fields'')
      else bindR (mpz_mod (num a - num other) (prime a)) (\<lambda>n. GF n (prime a)))"

definition gf_sub_int :: "gf \<Rightarrow> int \<Rightarrow> gf result" where
  "gf_sub_int a n =
     bindR (GF (num a) (prime a)) (\<lambda>l. bindR (GF n (prime a)) (\<lambda>r. gf_sub l r))"

definition gf_neg :: "gf \<Rightarrow> gf result" where
  "gf_neg a = GF (- num a) (prime a)"

text \<open>\<open>operator*\<close>.\<close>

definition gf_mul :: "gf \<Rightarrow> gf \<Rightarrow> gf result" where
  "gf_mul a other =
     (if prime a \<noteq> prime other
      then Inl (Abort ''Cannot multiply two numbers in different Fields'')
      else bindR (mpz_mod (num a * num other) (prime a)) (\<lambda>n. GF n (prime a)))"

definition gf_mul_int :: "gf \<Rightarrow> int \<Rightarrow> gf result" where
  "gf_mul_int a n =
     bindR (GF (num a) (prime a)) (\<lambda>l. bindR (GF n (prime a)) (\<lambda>r. gf_mul l r))"

text \<open>
  \<open>pow\<close>: the exponent is first reduced modulo \<open>prime - 1\<close>, then \<open>mpz_powm\<close> is applied.
\<close>

definition pow :: "gf \<Rightarrow> int \<Rightarrow> gf result" where
  "pow a exp =
     bindR (mpz_mod exp (prime a - 1)) (\<lambda>e.
     bindR (mpz_powm (num a) (nat e) (prime a)) (\<lambda>n. GF n (prime a)))"

definition pow_int :: "gf \<Rightarrow> int \<Rightarrow> gf result" where
  "pow_int a n = bindR (GF (num a) (prime a)) (\<lambda>g. pow g n)"

text \<open>\<open>operator/\<close>: multiplication by \<open>other.pow (prime - 2)\<close>.\<close>

definition gf_div :: "gf \<Rightarrow> gf \<Rightarrow> gf result" where
  "gf_div a other =
     (if prime a \<noteq> prime other
      then Inl (Abort ''Cannot divide two numbers in different Fields'')
      else bindR (GF (num a) (prime a)) (\<lambda>l.
           bindR (pow other (prime a - 2)) (\<lambda>r. gf_mul l r)))"

definition gf_div_int :: "gf \<Rightarrow> int \<Rightarrow> gf result" where
  "gf_div_int a n =
     bindR (GF (num a) (prime a)) (\<lambda>l. bindR (GF n (prime a)) (\<lambda>r. gf_div l r))"

text \<open>\<open>operator%\<close>: the remainder of the stored values, as integers.\<close>

definition gf_mod :: "gf \<Rightarrow> gf \<Rightarrow> gf result" where
  "gf_mod a other =
     (if prime a \<noteq> prime other
      then Inl (Abort ''Cannot get module from two numbers in different Fields'')
      else bindR (mpz_mod (num a) (num other)) (\<lambda>n. GF n (prime a)))"

definition gf_mod_int :: "gf \<Rightarrow> int \<Rightarrow> gf result" where
  "gf_mod_int a n =
     bindR (GF (num a) (prime a)) (\<lambda>l. bindR (GF n (prime a)) (\<lambda>r. gf_mod l r))"

section \<open>The curve secp256k1\<close>

record point =
  x :: gf
  y :: gf

definition secp256k1_N :: int where
  "secp256k1_N = 0xFFFFFFFFFFFFFFFFFFFFFFFFFFFFFFFEBAAEDCE6AF48A03BBFD25E8CD0364141"

definition secp256k1_P :: int where
  "secp256k1_P = 0xFFFFFFFFFFFFFFFFFFFFFFFFFFFFFFFFFFFFFFFFFFFFFFFFFFFFFFFEFFFFFC2F"

text \<open>
  The constructor of \<open>Curve\<close> builds both coordinates of the generator with
  \<open>GF (x, P)\<close>; \<open>P\<close> is not 0, so neither construction fails and the stored values are
  the literals reduced modulo \<open>P\<close>.
\<close>

definition secp256k1_G :: point where
  "secp256k1_G =
     \<lparr>x = \<lparr>num = 0x79BE667EF9DCBBAC55A06295CE870B07029BFCDB2DCE28D959F2815B16F81798
                   mod \<bar>secp256k1_P\<bar>, prime = secp256k1_P\<rparr>,
      y = \<lparr>num = 0x483ADA7726A3C4655DA4FBFC0E1108A8FD17B448A68554199C47D08FFB10D4B8
                   mod \<bar>secp256k1_P\<bar>, prime = secp256k1_P\<rparr>\<rparr>"

section \<open>Point addition\<close>

text \<open>
  \<open>add\<close> has two branches, the tangent for equal operands and the chord otherwise, and
  no other case.  C++ leaves the order in which the two operands of an operator are
  evaluated open; the model evaluates the left one first.
\<close>

definition add :: "point \<Rightarrow> point \<Rightarrow> point result" where
  "add p q =
     bindR (if gf_eq (x p) (x q) \<and> gf_eq (y p) (y q)
            then bindR (pow_int (x p) 2) (\<lambda>a. bindR (gf_mul_int a 3) (\<lambda>b.
                 bindR (gf_mul_int (y p) 2) (\<lambda>c. gf_div b c)))
            else bindR (gf_sub (y q) (y p)) (\<lambda>a. bindR (gf_sub (x q) (x p)) (\<lambda>b.
                 gf_div a b)))
       (\<lambda>lambda.
     bindR (pow_int lambda 2) (\<lambda>l2. bindR (gf_sub l2 (x p)) (\<lambda>t.
     bindR (gf_sub t (x q)) (\<lambda>rx.
     bindR (gf_sub (x p) rx) (\<lambda>d. bindR (gf_mul lambda d) (\<lambda>m.
     bindR (gf_sub m (y p)) (\<lambda>ry.
     Inr \<lparr>x = rx, y = ry\<rparr>)))))))"

section \<open>Scalar multiplication\<close>

text \<open>
  The loop of \<open>priv2pub\<close> runs 256 times; the first argument counts the rounds that
  remain.  \<open>sk\<close> is the value of the scalar, \<open>pub\<close> the accumulator, \<open>G\<close> the
  running double of the base point and \<open>b\<close> the variable \<open>bit\<close> of the source,
  shifted left once a round.  The accumulator starts as the pair (0, 0); when a bit of the
  scalar is set and the accumulator still is that pair, the running point is copied into
  it, otherwise \<open>add\<close> is called.
\<close>

fun priv2pub_loop :: "nat \<Rightarrow> int \<Rightarrow> point \<Rightarrow> point \<Rightarrow> int \<Rightarrow> point result" where
  "priv2pub_loop 0 sk pub G b = Inr pub"
| "priv2pub_loop (Suc n) sk pub G b =
     bindR (if b AND sk \<noteq> 0
            then bindR (gf_eq_int (x pub) 0) (\<lambda>zx.
                   if zx
                   then bindR (gf_eq_int (y pub) 0) (\<lambda>zy. if zy then Inr G else add pub G)
                   else add pub G)
            else Inr pub) (\<lambda>pub'.
     bindR (add G G) (\<lambda>G'.
     priv2pub_loop n sk pub' G' (push_bit 1 b)))"

definition priv2pub :: "gf \<Rightarrow> point option \<Rightarrow> point result" where
  "priv2pub sk Q =
     (let G = (case Q of None \<Rightarrow> secp256k1_G | Some q \<Rightarrow> q) in
      bindR (GF 0 secp256k1_P) (\<lambda>px. bindR (GF 0 secp256k1_P) (\<lambda>py.
      priv2pub_loop 256 (getNum sk) \<lparr>x = px, y = py\<rparr> G 1)))"

section \<open>Key generation\<close>

text \<open>
  \<open>readDevRandom (32)\<close> returns 64 hexadecimal digits read from the entropy device, and
  \<open>genPriv\<close> reads them as a number.  The numbers the device delivers, in the order it
  delivers them, are the argument; the result carries the numbers not yet used.  The loop
  has no bound: \<open>None\<close> says that it is still asking when the numbers given are used up.
\<close>

fun genPriv :: "int list \<Rightarrow> (gf result \<times> int list) option" where
  "genPriv [] = None"
| "genPriv (key # rest) =
     (if key \<le> 0 \<or> key \<ge> secp256k1_N then genPriv rest
      else Some (GF key secp256k1_P, rest))"

section \<open>Signing\<close>

text \<open>
  One round of the inner loop of \<open>main\<close>: a fresh scalar \<open>sk\<close>, its point, \<open>R\<close> and
  \<open>S\<close>, and the test of the loop, \<open>R == GF (0, P) or S == GF (0, N)\<close>, whose right
  operand is evaluated only when the left one is false.
\<close>

definition sign_attempt :: "gf \<Rightarrow> gf \<Rightarrow> gf \<Rightarrow> (gf \<times> gf) result" where
  "sign_attempt message privKey sk =
     bindR (priv2pub sk None) (\<lambda>pk.
     let R = x pk in
     bindR (GF (getNum privKey) secp256k1_N) (\<lambda>d.
     bindR (GF (getNum R) secp256k1_N) (\<lambda>r.
     bindR (gf_mul d r) (\<lambda>dr.
     bindR (gf_add message dr) (\<lambda>numer.
     bindR (GF (getNum sk) secp256k1_N) (\<lambda>k.
     bindR (gf_div numer k) (\<lambda>S. Inr (R, S))))))))"

definition sign_rejected :: "gf \<Rightarrow> gf \<Rightarrow> bool result" where
  "sign_rejected R S =
     bindR (GF 0 secp256k1_P) (\<lambda>zp.
     if gf_eq R zp then Inr True
     else bindR (GF 0 secp256k1_N) (\<lambda>zn. Inr (gf_eq S zn)))"

lemma genPriv_shorter: "genPriv rs = Some (g, rest) \<Longrightarrow> length rest < length rs"
  by (induction rs) (auto split: if_splits)

function sign_inner :: "gf \<Rightarrow> gf \<Rightarrow> int list \<Rightarrow> ((gf \<times> gf) \<times> int list) result option" where
  "sign_inner message privKey rs =
     (case genPriv rs of
        None \<Rightarrow> None
      | Some (g, rest) \<Rightarrow>
          (case bindR g (\<lambda>sk. bindR (sign_attempt message privKey sk) (\<lambda>(R, S).
                bindR (sign_rejected R S) (\<lambda>again. Inr (R, S, again)))) of
             Inl e \<Rightarrow> Some (Inl e)
           | Inr (R, S, again) \<Rightarrow>
               if again then sign_inner message privKey rest
               else Some (Inr ((R, S), rest))))"
  by pat_completeness auto
termination
  by (relation "measure (\<lambda>(message, privKey, rs). length rs)") (auto dest: genPriv_shorter)

declare sign_inner.simps [simp del]

text \<open>The check that follows the inner loop, and the outer loop around both.\<close>

definition sign_check :: "gf \<Rightarrow> point \<Rightarrow> gf \<Rightarrow> gf \<Rightarrow> bool result" where
  "sign_check message pubKey R S =
     bindR (gf_div message S) (\<lambda>u1. bindR (priv2pub u1 None) (\<lambda>p1.
     bindR (GF (getNum R) secp256k1_N) (\<lambda>r. bindR (gf_div r S) (\<lambda>u2.
     bindR (priv2pub u2 (Some pubKey)) (\<lambda>p2.
     bindR (add p1 p2) (\<lambda>p. Inr (gf_eq (x p) R)))))))"

lemma sign_inner_shorter:
  "sign_inner message privKey rs = Some (Inr (sig, rest)) \<Longrightarrow> length rest < length rs"
proof (induction message privKey rs rule: sign_inner.induct)
  case (1 message privKey rs)
  note unroll = sign_inner.simps [of message privKey rs]
  show ?case
  proof (cases "genPriv rs")
    case None
    with "1.prems" show ?thesis by (simp add: unroll)
  next
    case (Some a)
    obtain g rest' where a: "a = (g, rest')" by (cases a)
    have sh: "length rest' < length rs" using Some a by (auto dest: genPriv_shorter)
    show ?thesis
    proof (cases "bindR g (\<lambda>sk. bindR (sign_attempt message privKey sk) (\<lambda>(R, S).
                bindR (sign_rejected R S) (\<lambda>again. Inr (R, S, again))))")
      case (Inl e)
      with "1.prems" Some a show ?thesis by (simp add: unroll)
    next
      case (Inr t)
      obtain R S again where t: "t = (R, S, again)" by (cases t)
      show ?thesis
      proof (cases again)
        case True
        with "1.prems" Some a Inr t have "sign_inner message privKey rest' = Some (Inr (sig, rest))"
          by (simp add: unroll)
        with "1.IH" [OF Some a [symmetric] Inr t [symmetric] refl True]
        have "length rest < length rest'" by simp
        with sh show ?thesis by simp
      next
        case False
        with "1.prems" Some a Inr t have "rest = rest'" by (simp add: unroll)
        with sh show ?thesis by simp
      qed
    qed
  qed
qed

function sign_loop :: "gf \<Rightarrow> gf \<Rightarrow> point \<Rightarrow> int list \<Rightarrow> ((gf \<times> gf) \<times> int list) result option" where
  "sign_loop message privKey pubKey rs =
     (case sign_inner message privKey rs of
        None \<Rightarrow> None
      | Some (Inl e) \<Rightarrow> Some (Inl e)
      | Some (Inr ((R, S), rest)) \<Rightarrow>
          (case sign_check message pubKey R S of
             Inl e \<Rightarrow> Some (Inl e)
           | Inr verify \<Rightarrow>
               if verify then Some (Inr ((R, S), rest))
               else sign_loop message privKey pubKey rest))"
  by pat_completeness auto
termination
  by (relation "measure (\<lambda>(message, privKey, pubKey, rs). length rs)")
     (auto dest: sign_inner_shorter)

declare sign_loop.simps [simp del]

section \<open>Verification by recovery\<close>

text \<open>
  The first half of the body of the loop of \<open>main\<close>, for the recovery id \<open>i\<close>: the
  point \<open>r\<close> with the coordinates \<open>x\<close> and \<open>y\<close>.  \<open>i / 2\<close> is the division of C++ on
  an \<open>int\<close> from 0 to 3; \<open>beta - i\<close> and \<open>% 2\<close> are the operators of \<open>GF\<close> with an
  \<open>int\<close>.
\<close>

definition candidate :: "gf \<Rightarrow> nat \<Rightarrow> point result" where
  "candidate R i =
     bindR (GF secp256k1_N secp256k1_P) (\<lambda>n.
     bindR (gf_mul_int n (int (i div 2))) (\<lambda>t.
     bindR (gf_add R t) (\<lambda>xc.
     bindR (pow_int xc 3) (\<lambda>x3.
     bindR (gf_add_int x3 7) (\<lambda>alpha.
     bindR (pow alpha ((secp256k1_P + 1) div 4)) (\<lambda>beta.
     bindR (gf_sub_int beta (int i)) (\<lambda>bi.
     bindR (gf_mod_int bi 2) (\<lambda>par.
     bindR (gf_eq_int par 0) (\<lambda>even_par.
     bindR (if even_par then Inr beta else gf_neg beta) (\<lambda>yc.
     Inr \<lparr>x = xc, y = yc\<rparr>))))))))))"

text \<open>The second half, from the point \<open>r\<close> to the point \<open>Q\<close>.\<close>

definition recover :: "gf \<Rightarrow> gf \<Rightarrow> gf \<Rightarrow> nat \<Rightarrow> point result" where
  "recover message R S i =
     bindR (candidate R i) (\<lambda>c.
     bindR (priv2pub S (Some c)) (\<lambda>sR.
     bindR (gf_neg message) (\<lambda>nm.
     bindR (priv2pub nm None) (\<lambda>zG.
     bindR (add sR zG) (\<lambda>temp.
     bindR (GF (getNum R) secp256k1_N) (\<lambda>rn.
     bindR (pow_int rn (- 1)) (\<lambda>rinv.
     priv2pub rinv (Some temp))))))))"

text \<open>
  \<open>gmp_sprintf\<close> with \<open>%Z064x\<close> writes a number in lower-case hexadecimal digits,
  filled with zeros on the left to 64 characters, the sign of a negative number first.
\<close>

definition hex_digit :: "nat \<Rightarrow> char" where
  "hex_digit d = ''0123456789abcdef'' ! d"

fun hex_of_nat :: "nat \<Rightarrow> string" where
  "hex_of_nat n =
     (if n < 16 then [hex_digit n] else hex_of_nat (n div 16) @ [hex_digit (n mod 16)])"

declare hex_of_nat.simps [simp del]

definition Z064x :: "int \<Rightarrow> string" where
  "Z064x n =
     (let digits = hex_of_nat (nat \<bar>n\<bar>) in
      if n < 0 then ''-'' @ replicate (63 - length digits) CHR ''0'' @ digits
      else replicate (64 - length digits) CHR ''0'' @ digits)"

definition pubBuf :: "point \<Rightarrow> string" where
  "pubBuf Q = ''04'' @ Z064x (getNum (x Q)) @ Z064x (getNum (y Q))"

text \<open>\<open>splitXY\<close>: the compressed form, from the 64 characters behind the first two.\<close>

definition splitXY :: "string \<Rightarrow> point \<Rightarrow> string result" where
  "splitXY key pk =
     (if length key < 2 then Inl OutOfRange
      else let xs = take 64 (drop 2 key) in
        bindR (mpz_mod (getNum (y pk)) 2) (\<lambda>res.
        if res = 0 then Inr (''02'' @ xs) else Inr (''03'' @ xs)))"

text \<open>
  The loop over the four recovery ids, left at the first match.  \<open>binary2Addr\<close> turns the
  hexadecimal form of a public key into an address; it hashes with SHA-256 and RIPEMD-160,
  which \<open>SHA256.h\<close> and \<open>RIPEMD160.h\<close> declare and the sources at hand do not contain, so
  it is the parameter \<open>binary2Addr\<close> here.  The result \<open>True\<close> stands for
  \<open>Signature verification passed\<close>.
\<close>

fun verify_loop ::
  "(string \<Rightarrow> string) \<Rightarrow> gf \<Rightarrow> gf \<Rightarrow> gf \<Rightarrow> string \<Rightarrow> nat list \<Rightarrow> bool result" where
  "verify_loop binary2Addr message R S pubKey [] = Inr False"
| "verify_loop binary2Addr message R S pubKey (i # ids) =
     bindR (recover message R S i) (\<lambda>Q.
     let pub = binary2Addr (pubBuf Q) in
     bindR (splitXY (pubBuf Q) Q) (\<lambda>c.
     let pubC = binary2Addr c in
     if pub = pubKey \<or> pubC = pubKey then Inr True
     else verify_loop binary2Addr message R S pubKey ids))"

text \<open>
  The verifying branch of \<open>main\<close>, from the digest \<open>z\<close> and the two numbers \<open>r\<close> and
  \<open>s\<close> read from the signature.
\<close>

definition verify :: "(string \<Rightarrow> string) \<Rightarrow> int \<Rightarrow> int \<Rightarrow> int \<Rightarrow> string \<Rightarrow> bool result" where
  "verify binary2Addr z r s pubKey =
     bindR (GF z secp256k1_N) (\<lambda>message.
     bindR (GF r secp256k1_P) (\<lambda>R.
     bindR (GF s secp256k1_P) (\<lambda>S.
     verify_loop binary2Addr message R S pubKey [0 ..< 4])))"

text \<open>
  The signing branch of \<open>main\<close>, from the digest \<open>z\<close> and the number \<open>d\<close> decoded
  from the private key, up to the pair \<open>R\<close>, \<open>S\<close> that is then written out.
\<close>

definition sign :: "int \<Rightarrow> int \<Rightarrow> int list \<Rightarrow> ((gf \<times> gf) \<times> int list) result option" where
  "sign z d rs =
     (case bindR (GF z secp256k1_N) (\<lambda>message.
           bindR (GF d secp256k1_P) (\<lambda>privKey.
           bindR (priv2pub privKey None) (\<lambda>pubKey. Inr (message, privKey, pubKey)))) of
        Inl e \<Rightarrow> Some (Inl e)
      | Inr (message, privKey, pubKey) \<Rightarrow> sign_loop message privKey pubKey rs)"

section \<open>Predicates of the specification\<close>

text \<open>
  An element is reduced for the modulus \<open>m\<close> when it carries \<open>m\<close> and its value lies
  in the range from 0 to \<open>m - 1\<close>.
\<close>

definition in_field :: "int \<Rightarrow> gf \<Rightarrow> bool" where
  "in_field m a \<longleftrightarrow> prime a = m \<and> 0 \<le> num a \<and> num a < m"

text \<open>
  The class never tests its modulus for primality; the specification assumes it.  The
  assumption is this predicate: trial division by every candidate below \<open>p\<close>.
\<close>

definition is_prime :: "int \<Rightarrow> bool" where
  "is_prime p \<longleftrightarrow> 1 < p \<and> (\<forall>d\<in>{2..<p}. \<not> d dvd p)"

text \<open>
  A point whose two coordinates carry the field prime \<open>P\<close>, and the pair (0, 0) that
  \<open>priv2pub\<close> starts its accumulator with.
\<close>

definition on_field :: "point \<Rightarrow> bool" where
  "on_field p \<longleftrightarrow> prime (x p) = secp256k1_P \<and> prime (y p) = secp256k1_P"

definition zero_point :: point where
  "zero_point = \<lparr>x = \<lparr>num = 0, prime = secp256k1_P\<rparr>, y = \<lparr>num = 0, prime = secp256k1_P\<rparr>\<rparr>"

text \<open>
  The signature component \<open>s\<close> in the words of the specification:
  \<open>(digest + privateKey \<cdot> r) / k\<close> over the group order, where \<open>a / b\<close> is
  \<open>a \<cdot> b ^ (order - 2)\<close>; on integers, reduced once at the end.
\<close>

definition spec_s :: "int \<Rightarrow> int \<Rightarrow> int \<Rightarrow> int \<Rightarrow> int" where
  "spec_s digest d r k = (digest + d * r) * k ^ nat (secp256k1_N - 2) mod secp256k1_N"

text \<open>
  The candidate point of the recovery id \<open>i\<close> in the words of the specification, on
  integers: \<open>x = r + order \<cdot> \<lfloor>i / 2\<rfloor>\<close>, \<open>\<alpha> = x\<^sup>3 + 7\<close>,
  \<open>\<beta> = \<alpha> ^ ((P + 1) / 4)\<close>, and \<open>y = \<beta>\<close> if \<open>(\<beta> - i) mod 2 = 0\<close>, else
  \<open>- \<beta>\<close>: the root whose parity is the one that \<open>i\<close> encodes.
\<close>

definition spec_candidate :: "int \<Rightarrow> nat \<Rightarrow> point" where
  "spec_candidate r i =
     (let xv = (r + secp256k1_N * int (i div 2)) mod secp256k1_P;
          alpha = (xv ^ 3 + 7) mod secp256k1_P;
          beta = alpha ^ nat ((secp256k1_P + 1) div 4) mod secp256k1_P;
          yv = (if (beta - int i) mod 2 = 0 then beta else (- beta) mod secp256k1_P)
      in \<lparr>x = \<lparr>num = xv, prime = secp256k1_P\<rparr>, y = \<lparr>num = yv, prime = secp256k1_P\<rparr>\<rparr>)"

section \<open>The code of the recovery on integers\<close>

text \<open>
  What \<open>candidate\<close> computes, with the operators of \<open>GF\<close> written out as integer
  arithmetic.  The code takes the difference \<open>beta - i\<close> in the field, so it is reduced
  modulo \<open>P\<close> before its remainder by 2 is taken: for \<open>beta < i\<close> the difference wraps
  around to \<open>P + beta - i\<close>, whose parity is the other one, \<open>P\<close> being odd.
\<close>

definition wrapped_candidate :: "int \<Rightarrow> nat \<Rightarrow> point" where
  "wrapped_candidate r i =
     (let xv = (r + secp256k1_N * int (i div 2)) mod secp256k1_P;
          alpha = (xv ^ 3 + 7) mod secp256k1_P;
          beta = alpha ^ nat ((secp256k1_P + 1) div 4) mod secp256k1_P;
          yv = (if (beta - int i) mod secp256k1_P mod 2 = 0 then beta
                else (- beta) mod secp256k1_P)
      in \<lparr>x = \<lparr>num = xv, prime = secp256k1_P\<rparr>, y = \<lparr>num = yv, prime = secp256k1_P\<rparr>\<rparr>)"

text \<open>
  What \<open>recover\<close> computes from that point, with the scalars written out: the numbers
  \<open>r\<close> and \<open>s\<close> of the signature modulo \<open>P\<close>, the negated digest modulo \<open>N\<close>, and
  the power \<open>N - 2\<close> of \<open>r\<close> modulo \<open>N\<close>.  \<open>priv2pub\<close> and \<open>add\<close> are the
  functions of the code.
\<close>

definition recover_value :: "int \<Rightarrow> int \<Rightarrow> int \<Rightarrow> nat \<Rightarrow> point result" where
  "recover_value z r s i =
     bindR (priv2pub \<lparr>num = s mod secp256k1_P, prime = secp256k1_P\<rparr>
              (Some (wrapped_candidate r i))) (\<lambda>sR.
     bindR (priv2pub \<lparr>num = (- z) mod secp256k1_N, prime = secp256k1_N\<rparr> None) (\<lambda>zG.
     bindR (add sR zG) (\<lambda>temp.
     priv2pub \<lparr>num = (r mod secp256k1_P) ^ nat (secp256k1_N - 2) mod secp256k1_N,
               prime = secp256k1_N\<rparr> (Some temp))))"

section \<open>Further predicates\<close>

text \<open>
  A point both of whose coordinates are reduced elements of the field of \<open>P\<close>.
\<close>

definition reduced_point :: "point \<Rightarrow> bool" where
  "reduced_point p \<longleftrightarrow> in_field secp256k1_P (x p) \<and> in_field secp256k1_P (y p)"

text \<open>
  The compressed hexadecimal form of a point, beside the uncompressed form \<open>pubBuf\<close>:
  a prefix that tells the parity of \<open>y\<close>, then the 64 digits of \<open>x\<close>.
\<close>

definition compressed_key :: "point \<Rightarrow> string" where
  "compressed_key Q = (if num (y Q) mod 2 = 0 then ''02'' else ''03'') @ Z064x (num (x Q))"

section \<open>Basic facts\<close>

lemma bindR_Inr [simp]: "bindR (Inr v) f = f v"
  by (simp add: bindR_def)

lemma bindR_Inl [simp]: "bindR (Inl e) f = Inl e"
  by (simp add: bindR_def)

lemma bindR_eq_Inr:
  "bindR m f = Inr r \<longleftrightarrow> (\<exists>v. m = Inr v \<and> f v = Inr r)"
  by (cases m) simp_all

lemma GF_nonzero: "p \<noteq> 0 \<Longrightarrow> GF n p = Inr \<lparr>num = n mod \<bar>p\<bar>, prime = p\<rparr>"
  by (simp add: GF_def mpz_mod_def)

lemma GF_zero: "GF n 0 = Inl DivideByZero"
  by (simp add: GF_def mpz_mod_def)

section \<open>The operations on elements of one field, as integer arithmetic\<close>

lemma gf_add_same:
  "prime a = m \<Longrightarrow> prime b = m \<Longrightarrow> m \<noteq> 0 \<Longrightarrow>
   gf_add a b = Inr \<lparr>num = (num a + num b) mod \<bar>m\<bar>, prime = m\<rparr>"
  by (simp add: gf_add_def mpz_mod_def GF_nonzero)

lemma gf_sub_same:
  "prime a = m \<Longrightarrow> prime b = m \<Longrightarrow> m \<noteq> 0 \<Longrightarrow>
   gf_sub a b = Inr \<lparr>num = (num a - num b) mod \<bar>m\<bar>, prime = m\<rparr>"
  by (simp add: gf_sub_def mpz_mod_def GF_nonzero)

lemma gf_mul_same:
  "prime a = m \<Longrightarrow> prime b = m \<Longrightarrow> m \<noteq> 0 \<Longrightarrow>
   gf_mul a b = Inr \<lparr>num = (num a * num b) mod \<bar>m\<bar>, prime = m\<rparr>"
  by (simp add: gf_mul_def mpz_mod_def GF_nonzero)

lemma gf_neg_same:
  "prime a = m \<Longrightarrow> m \<noteq> 0 \<Longrightarrow> gf_neg a = Inr \<lparr>num = (- num a) mod \<bar>m\<bar>, prime = m\<rparr>"
  by (simp add: gf_neg_def GF_nonzero)

lemma pow_same:
  "prime a = m \<Longrightarrow> 1 < m \<Longrightarrow>
   pow a e = Inr \<lparr>num = num a ^ nat (e mod (m - 1)) mod m, prime = m\<rparr>"
  by (simp add: pow_def mpz_mod_def mpz_powm_def GF_nonzero)

lemma pow_modulus_one: "prime a = 1 \<Longrightarrow> pow a e = Inl DivideByZero"
  by (simp add: pow_def mpz_mod_def)

lemma gf_div_same:
  "prime a = m \<Longrightarrow> prime b = m \<Longrightarrow> 1 < m \<Longrightarrow>
   gf_div a b =
     Inr \<lparr>num = (num a mod m) * (num b ^ nat ((m - 2) mod (m - 1)) mod m) mod m, prime = m\<rparr>"
  by (simp add: gf_div_def GF_nonzero pow_same gf_mul_same)

lemma gf_div_modulus_one:
  "prime a = 1 \<Longrightarrow> prime b = 1 \<Longrightarrow> gf_div a b = Inl DivideByZero"
  by (simp add: gf_div_def GF_nonzero pow_modulus_one)

lemma gf_mod_same:
  "prime a = m \<Longrightarrow> prime b = m \<Longrightarrow> m \<noteq> 0 \<Longrightarrow> num b \<noteq> 0 \<Longrightarrow>
   gf_mod a b = Inr \<lparr>num = (num a mod \<bar>num b\<bar>) mod \<bar>m\<bar>, prime = m\<rparr>"
  by (simp add: gf_mod_def mpz_mod_def GF_nonzero)

lemma gf_mod_by_zero:
  "prime a = prime b \<Longrightarrow> num b = 0 \<Longrightarrow> gf_mod a b = Inl DivideByZero"
  by (simp add: gf_mod_def mpz_mod_def)

lemma in_field_mod: "0 < m \<Longrightarrow> in_field m \<lparr>num = k mod m, prime = m\<rparr>"
  by (simp add: in_field_def)

section \<open>Fermat's little theorem\<close>

text \<open>
  Division is multiplication by the power \<open>prime - 2\<close>.  That this power is the inverse
  is Fermat's little theorem, proved here from the binomial theorem: a prime divides the
  binomial coefficients strictly inside its row, hence \<open>(a + 1) ^ p\<close> and \<open>a ^ p + 1\<close>
  agree modulo \<open>p\<close>, and induction on \<open>a\<close> gives \<open>a ^ p\<close> congruent to \<open>a\<close>.
\<close>

lemma is_prime_gt_1: "is_prime m \<Longrightarrow> 1 < m"
  by (simp add: is_prime_def)

lemma is_prime_5: "is_prime 5"
proof -
  have "\<not> d dvd (5::int)" if "d \<in> {2..<5}" for d
  proof -
    from that have "d = 2 \<or> d = 3 \<or> d = 4" by auto
    then show ?thesis by auto
  qed
  then show ?thesis by (simp add: is_prime_def)
qed

lemma is_prime_coprime:
  assumes "is_prime p" and "\<not> p dvd a"
  shows "coprime p a"
proof -
  let ?g = "gcd p a"
  have p1: "1 < p" using assms(1) by (simp add: is_prime_def)
  have g_dvd: "?g dvd p" by simp
  have g_pos: "0 < ?g" using p1 by simp
  have g_le: "?g \<le> p" using g_dvd p1 by (intro zdvd_imp_le) auto
  have "?g \<noteq> p"
  proof
    assume "?g = p"
    then have "p dvd a" by (metis gcd_dvd2)
    with assms(2) show False by simp
  qed
  with g_le have "?g < p" by simp
  have "\<not> 2 \<le> ?g"
  proof
    assume "2 \<le> ?g"
    with \<open>?g < p\<close> have "?g \<in> {2..<p}" by simp
    with assms(1) have "\<not> ?g dvd p" unfolding is_prime_def by blast
    with g_dvd show False by simp
  qed
  with g_pos have "?g = 1" by linarith
  then show ?thesis by (simp add: coprime_iff_gcd_eq_1)
qed

lemma is_prime_dvd_binomial:
  assumes "is_prime p" and "0 < k" and "k < nat p"
  shows "p dvd int (nat p choose k)"
proof -
  have p1: "1 < p" using assms(1) by (simp add: is_prime_def)
  have "\<not> p dvd int k"
  proof
    assume "p dvd int k"
    then have "p \<le> int k" using assms(2) by (intro zdvd_imp_le) auto
    with assms(3) show False by simp
  qed
  then have cop: "coprime p (int k)" using assms(1) by (rule is_prime_coprime [rotated])
  have "k * (nat p choose k) = nat p * ((nat p - 1) choose (k - 1))"
    using assms(2) by (rule times_binomial_minus1_eq)
  then have "int k * int (nat p choose k) = int (nat p) * int ((nat p - 1) choose (k - 1))"
    by (metis of_nat_mult)
  then have "p dvd int k * int (nat p choose k)"
    using p1 by simp
  with cop show ?thesis
    by (simp add: coprime_dvd_mult_right_iff)
qed

lemma is_prime_freshman:
  assumes "is_prime p"
  shows "p dvd (a + 1) ^ nat p - (a ^ nat p + 1)"
proof -
  let ?n = "nat p"
  have p1: "1 < p" using assms(1) by (simp add: is_prime_def)
  then have n1: "1 < ?n" by simp
  have "(a + 1) ^ ?n = (\<Sum>k\<le>?n. int (?n choose k) * a ^ k * 1 ^ (?n - k))"
    by (simp only: binomial_ring of_nat_id)
  also have "\<dots> = (\<Sum>k\<le>?n. int (?n choose k) * a ^ k)" by simp
  also have "{..?n} = insert 0 (insert ?n {1..<?n})" using n1 by auto
  also have "(\<Sum>k\<in>insert 0 (insert ?n {1..<?n}). int (?n choose k) * a ^ k)
     = 1 + (a ^ ?n + (\<Sum>k\<in>{1..<?n}. int (?n choose k) * a ^ k))"
    using n1 by simp
  finally have "(a + 1) ^ ?n - (a ^ ?n + 1) = (\<Sum>k\<in>{1..<?n}. int (?n choose k) * a ^ k)"
    by simp
  moreover have "p dvd (\<Sum>k\<in>{1..<?n}. int (?n choose k) * a ^ k)"
  proof (rule dvd_sum)
    fix k assume "k \<in> {1..<?n}"
    then have "p dvd int (?n choose k)"
      using is_prime_dvd_binomial [OF assms, of k] by simp
    then show "p dvd int (?n choose k) * a ^ k" by simp
  qed
  ultimately show ?thesis by simp
qed

lemma is_prime_power_self:
  assumes "is_prime p" and "0 \<le> a"
  shows "p dvd a ^ nat p - a"
  using assms(2)
proof (induction a rule: int_ge_induct)
  case base
  have "1 < p" using assms(1) by (simp add: is_prime_def)
  then show ?case by (simp add: power_0_left)
next
  case (step i)
  have "(i + 1) ^ nat p - (i + 1) = ((i + 1) ^ nat p - (i ^ nat p + 1)) + (i ^ nat p - i)"
    by simp
  with is_prime_freshman [OF assms(1), of i] step.IH show ?case
    by (metis dvd_add)
qed

lemma fermat_little:
  assumes "is_prime p" and "0 < a" and "a < p"
  shows "a ^ nat (p - 1) mod p = 1"
proof -
  have p1: "1 < p" using assms(1) by (simp add: is_prime_def)
  have ndvd: "\<not> p dvd a"
  proof
    assume "p dvd a"
    then have "p \<le> a" using assms(2) by (intro zdvd_imp_le) auto
    with assms(3) show False by simp
  qed
  have "nat p = Suc (nat (p - 1))" using p1 by simp
  then have "a ^ nat p - a = a * (a ^ nat (p - 1) - 1)"
    by (simp add: algebra_simps)
  with is_prime_power_self [OF assms(1), of a] assms(2)
  have "p dvd a * (a ^ nat (p - 1) - 1)" by simp
  with is_prime_coprime [OF assms(1) ndvd] have "p dvd a ^ nat (p - 1) - 1"
    by (simp add: coprime_dvd_mult_right_iff)
  then have "a ^ nat (p - 1) mod p = 1 mod p"
    by (simp add: mod_eq_dvd_iff)
  with p1 show ?thesis by simp
qed

section \<open>Elements of different fields\<close>

text \<open>
  Claim C7.  For two elements whose moduli differ, each binary operation of the class
  (addition, subtraction, multiplication, division, remainder) calls \<open>abort\<close> with its own
  message before it computes anything: no element is returned.
\<close>

theorem different_fields_abort:
  assumes "prime a \<noteq> prime b"
  shows "gf_add a b = Inl (Abort ''Cannot add two numbers in different Fields'')
       \<and> gf_sub a b = Inl (Abort ''Cannot subtract two numbers in different Fields'')
       \<and> gf_mul a b = Inl (Abort ''Cannot multiply two numbers in different Fields'')
       \<and> gf_div a b = Inl (Abort ''Cannot divide two numbers in different Fields'')
       \<and> gf_mod a b = Inl (Abort ''Cannot get module from two numbers in different Fields'')"
  using assms by (simp add: gf_add_def gf_sub_def gf_mul_def gf_div_def gf_mod_def)

theorem different_fields_abort_witness:
  "prime \<lparr>num = 3, prime = 7\<rparr> \<noteq> prime \<lparr>num = 3, prime = 11\<rparr>
   \<and> gf_add \<lparr>num = 3, prime = 7\<rparr> \<lparr>num = 3, prime = 11\<rparr>
       = Inl (Abort ''Cannot add two numbers in different Fields'')
   \<and> gf_sub \<lparr>num = 3, prime = 7\<rparr> \<lparr>num = 3, prime = 11\<rparr>
       = Inl (Abort ''Cannot subtract two numbers in different Fields'')
   \<and> gf_mul \<lparr>num = 3, prime = 7\<rparr> \<lparr>num = 3, prime = 11\<rparr>
       = Inl (Abort ''Cannot multiply two numbers in different Fields'')
   \<and> gf_div \<lparr>num = 3, prime = 7\<rparr> \<lparr>num = 3, prime = 11\<rparr>
       = Inl (Abort ''Cannot divide two numbers in different Fields'')
   \<and> gf_mod \<lparr>num = 3, prime = 7\<rparr> \<lparr>num = 3, prime = 11\<rparr>
       = Inl (Abort ''Cannot get module from two numbers in different Fields'')"
proof -
  have h: "prime \<lparr>num = 3, prime = 7\<rparr> \<noteq> prime \<lparr>num = 3, prime = 11\<rparr>"
    by simp
  show ?thesis
    using h different_fields_abort [OF h] by simp
qed

section \<open>The value stays reduced\<close>

text \<open>
  Claim C8 says that every arithmetic operation on elements of a positive modulus returns
  a reduced element.  Three of them do not always return: the remainder by the zero
  element calls \<open>mpz_mod\<close> with the divisor 0, and for the modulus 1 both \<open>pow\<close> and
  the division reduce the exponent modulo \<open>prime - 1 = 0\<close>; GMP stops the process with a
  division by zero, and no element exists.
\<close>

theorem values_stay_reduced_counterexample:
  "gf_mod \<lparr>num = 3, prime = 5\<rparr> \<lparr>num = 0, prime = 5\<rparr> = Inl DivideByZero
   \<and> pow \<lparr>num = 0, prime = 1\<rparr> 2 = Inl DivideByZero
   \<and> gf_div \<lparr>num = 0, prime = 1\<rparr> \<lparr>num = 0, prime = 1\<rparr> = Inl DivideByZero"
  by (simp add: gf_mod_by_zero pow_modulus_one gf_div_modulus_one)

text \<open>
  Claim C8, as the code has it.  For a positive modulus \<open>m\<close> the constructor stores a
  value in the range from 0 to \<open>m - 1\<close>, and so does every element that an arithmetic
  operation on elements of modulus \<open>m\<close> returns.  Addition, subtraction, negation and
  multiplication always return one; division and \<open>pow\<close> return one when \<open>1 < m\<close>; the
  remainder returns one when the value of the divisor is not 0.
\<close>

theorem values_stay_reduced:
  assumes "0 < m" and "prime a = m" and "prime b = m"
  shows "(\<exists>r. GF n m = Inr r \<and> in_field m r)
       \<and> (\<exists>r. gf_add a b = Inr r \<and> in_field m r)
       \<and> (\<exists>r. gf_sub a b = Inr r \<and> in_field m r)
       \<and> (\<exists>r. gf_neg a = Inr r \<and> in_field m r)
       \<and> (\<exists>r. gf_mul a b = Inr r \<and> in_field m r)
       \<and> (\<forall>r. gf_div a b = Inr r \<longrightarrow> in_field m r)
       \<and> (1 < m \<longrightarrow> (\<exists>r. gf_div a b = Inr r))
       \<and> (\<forall>r. pow a e = Inr r \<longrightarrow> in_field m r)
       \<and> (1 < m \<longrightarrow> (\<exists>r. pow a e = Inr r))
       \<and> (\<forall>r. gf_mod a b = Inr r \<longrightarrow> in_field m r)
       \<and> (num b \<noteq> 0 \<longrightarrow> (\<exists>r. gf_mod a b = Inr r))"
proof -
  have m0: "m \<noteq> 0" and am: "\<bar>m\<bar> = m" using assms(1) by simp_all
  have c0: "\<exists>r. GF n m = Inr r \<and> in_field m r"
    using assms(1) by (simp add: GF_nonzero in_field_mod)
  have c1: "\<exists>r. gf_add a b = Inr r \<and> in_field m r"
    using assms by (simp add: gf_add_same in_field_mod)
  have c2: "\<exists>r. gf_sub a b = Inr r \<and> in_field m r"
    using assms by (simp add: gf_sub_same in_field_mod)
  have c3: "\<exists>r. gf_neg a = Inr r \<and> in_field m r"
    using assms by (simp add: gf_neg_same in_field_mod)
  have c4: "\<exists>r. gf_mul a b = Inr r \<and> in_field m r"
    using assms by (simp add: gf_mul_same in_field_mod)
  have c5: "\<forall>r. gf_div a b = Inr r \<longrightarrow> in_field m r"
  proof (cases "m = 1")
    case True
    then show ?thesis using assms by (simp add: gf_div_modulus_one)
  next
    case False
    with assms(1) have "1 < m" by simp
    then show ?thesis using assms by (simp add: gf_div_same in_field_mod)
  qed
  have c6: "1 < m \<longrightarrow> (\<exists>r. gf_div a b = Inr r)"
    using assms by (simp add: gf_div_same)
  have c7: "\<forall>r. pow a e = Inr r \<longrightarrow> in_field m r"
  proof (cases "m = 1")
    case True
    then show ?thesis using assms by (simp add: pow_modulus_one)
  next
    case False
    with assms(1) have "1 < m" by simp
    then show ?thesis using assms by (simp add: pow_same in_field_mod)
  qed
  have c8: "1 < m \<longrightarrow> (\<exists>r. pow a e = Inr r)"
    using assms by (simp add: pow_same)
  have c9: "\<forall>r. gf_mod a b = Inr r \<longrightarrow> in_field m r"
  proof (cases "num b = 0")
    case True
    then show ?thesis using assms by (simp add: gf_mod_by_zero)
  next
    case False
    then show ?thesis using assms by (simp add: gf_mod_same in_field_mod)
  qed
  have c10: "num b \<noteq> 0 \<longrightarrow> (\<exists>r. gf_mod a b = Inr r)"
    using assms by (simp add: gf_mod_same)
  from c0 c1 c2 c3 c4 c5 c6 c7 c8 c9 c10 show ?thesis by blast
qed

theorem values_stay_reduced_witness:
  "(0::int) < 5 \<and> prime \<lparr>num = 3, prime = 5\<rparr> = 5 \<and> prime \<lparr>num = 4, prime = 5\<rparr> = 5
   \<and> GF 12 5 = Inr \<lparr>num = 2, prime = 5\<rparr> \<and> in_field 5 \<lparr>num = 2, prime = 5\<rparr>
   \<and> (\<exists>r. gf_add \<lparr>num = 3, prime = 5\<rparr> \<lparr>num = 4, prime = 5\<rparr> = Inr r \<and> in_field 5 r)
   \<and> (\<exists>r. gf_sub \<lparr>num = 3, prime = 5\<rparr> \<lparr>num = 4, prime = 5\<rparr> = Inr r \<and> in_field 5 r)
   \<and> (\<exists>r. gf_neg \<lparr>num = 3, prime = 5\<rparr> = Inr r \<and> in_field 5 r)
   \<and> (\<exists>r. gf_mul \<lparr>num = 3, prime = 5\<rparr> \<lparr>num = 4, prime = 5\<rparr> = Inr r \<and> in_field 5 r)
   \<and> (\<exists>r. gf_div \<lparr>num = 3, prime = 5\<rparr> \<lparr>num = 4, prime = 5\<rparr> = Inr r \<and> in_field 5 r)
   \<and> (\<exists>r. pow \<lparr>num = 3, prime = 5\<rparr> (- 1) = Inr r \<and> in_field 5 r)
   \<and> (\<exists>r. gf_mod \<lparr>num = 3, prime = 5\<rparr> \<lparr>num = 4, prime = 5\<rparr> = Inr r \<and> in_field 5 r)"
  using values_stay_reduced [of 5 "\<lparr>num = 3, prime = 5\<rparr>" "\<lparr>num = 4, prime = 5\<rparr>" 12 "- 1"]
  by (simp add: GF_nonzero in_field_def) blast

section \<open>Division by the zero element\<close>

text \<open>
  Claim C4 says that dividing by the zero element fails.  The code has no such test:
  \<open>operator/\<close> multiplies by \<open>other.pow (prime - 2)\<close>, and the zero element to a
  positive power is the zero element, so 3 divided by 0 modulo 7 is 0.
\<close>

theorem division_by_zero_counterexample:
  "gf_div \<lparr>num = 3, prime = 7\<rparr> \<lparr>num = 0, prime = 7\<rparr> = Inr \<lparr>num = 0, prime = 7\<rparr>"
  by (simp add: gf_div_same)

text \<open>
  Claim C4, as the code has it.  For every modulus \<open>m\<close> above 1, dividing an element of
  modulus \<open>m\<close> by the zero element of modulus \<open>m\<close> does not fail: it returns the zero
  element, and for \<open>m = 2\<close> (where the exponent \<open>m - 2\<close> is 0 and \<open>0 ^ 0 = 1\<close>) the
  dividend, reduced.
\<close>

theorem division_by_zero_element:
  assumes "1 < m" and "prime a = m"
  shows "gf_div a \<lparr>num = 0, prime = m\<rparr>
           = Inr \<lparr>num = (if m = 2 then num a mod 2 else 0), prime = m\<rparr>"
proof (cases "m = 2")
  case True
  then show ?thesis using assms by (simp add: gf_div_same)
next
  case False
  with assms(1) have "0 < nat (m - 2)" by simp
  then have z: "(0::int) ^ nat (m - 2) = 0" by simp
  show ?thesis using assms False by (simp add: gf_div_same z)
qed

theorem division_by_zero_element_witness:
  "(1::int) < 7 \<and> prime \<lparr>num = 3, prime = 7\<rparr> = 7
   \<and> gf_div \<lparr>num = 3, prime = 7\<rparr> \<lparr>num = 0, prime = 7\<rparr> = Inr \<lparr>num = 0, prime = 7\<rparr>"
  using division_by_zero_element [of 7 "\<lparr>num = 3, prime = 7\<rparr>"] by simp

section \<open>Powers of the zero element\<close>

text \<open>
  Claim C9.  For a prime modulus \<open>m\<close> and an exponent \<open>e\<close> that is a multiple of
  \<open>m - 1\<close>, the zero element \<open>GF (0, m)\<close> to the power \<open>e\<close> is the one element
  \<open>GF (1, m)\<close>: the exponent is reduced to 0 before \<open>mpz_powm\<close> is called, and
  \<open>mpz_powm\<close> gives 1 for the exponent 0 whatever the base.
\<close>

theorem pow_of_zero_element:
  assumes "is_prime m" and "e mod (m - 1) = 0"
  shows "bindR (GF 0 m) (\<lambda>z. pow z e) = Inr \<lparr>num = 1, prime = m\<rparr>
       \<and> GF 1 m = Inr \<lparr>num = 1, prime = m\<rparr>
       \<and> bindR (GF 0 m) (\<lambda>z. bindR (pow z e) (\<lambda>r. gf_eq_int r 1)) = Inr True"
  using assms is_prime_gt_1 [OF assms(1)]
  by (simp add: GF_nonzero pow_same gf_eq_int_def gf_eq_def)

theorem pow_of_zero_element_witness:
  "is_prime 5 \<and> 8 mod (5 - 1) = (0::int)
   \<and> bindR (GF 0 5) (\<lambda>z. pow z 0) = Inr \<lparr>num = 1, prime = 5\<rparr>
   \<and> bindR (GF 0 5) (\<lambda>z. pow z (5 - 1)) = Inr \<lparr>num = 1, prime = 5\<rparr>
   \<and> bindR (GF 0 5) (\<lambda>z. pow z 8) = Inr \<lparr>num = 1, prime = 5\<rparr>
   \<and> GF 1 5 = Inr \<lparr>num = 1, prime = 5\<rparr>
   \<and> bindR (GF 0 5) (\<lambda>z. bindR (pow z 0) (\<lambda>r. gf_eq_int r 1)) = Inr True"
  using is_prime_5 pow_of_zero_element [of 5 0] pow_of_zero_element [of 5 "5 - 1"]
    pow_of_zero_element [of 5 8]
  by simp

section \<open>The inverse exponent\<close>

text \<open>
  Claim C6 ends with \<open>a.pow (m - 2) * a == a.pow (1)\<close>.  The left side is the product of
  \<open>a\<close> and its inverse, the one element; the right side is \<open>a\<close>.  Modulo 5, with
  \<open>a = 2\<close>: \<open>2 ^ 3 = 8\<close>, reduced 3, times 2 is 6, reduced 1, and \<open>a.pow (1)\<close> is 2.
\<close>

theorem pow_inverse_exponent_counterexample:
  "bindR (pow \<lparr>num = 2, prime = 5\<rparr> (5 - 2)) (\<lambda>i. gf_mul i \<lparr>num = 2, prime = 5\<rparr>)
     = Inr \<lparr>num = 1, prime = 5\<rparr>
   \<and> pow \<lparr>num = 2, prime = 5\<rparr> 1 = Inr \<lparr>num = 2, prime = 5\<rparr>
   \<and> bindR (pow \<lparr>num = 2, prime = 5\<rparr> (5 - 2)) (\<lambda>i. gf_mul i \<lparr>num = 2, prime = 5\<rparr>)
     \<noteq> pow \<lparr>num = 2, prime = 5\<rparr> 1"
  by (simp add: pow_same gf_mul_same)

text \<open>
  Claim C6, as the code has it.  For a prime modulus \<open>m\<close>, an element \<open>a\<close> of modulus
  \<open>m\<close> and every integer exponent \<open>e\<close>, negative ones too, \<open>a.pow (e)\<close> equals
  \<open>a.pow (e mod (m - 1))\<close>; and for a reduced \<open>a\<close> other than zero,
  \<open>a.pow (- 1)\<close> equals \<open>a.pow (m - 2)\<close>, and \<open>a.pow (m - 2) * a\<close> equals
  \<open>a.pow (0)\<close>, the one element.
\<close>

theorem pow_inverse_exponent:
  assumes "is_prime m" and "prime a = m"
  shows "pow a e = pow a (e mod (m - 1))
       \<and> (0 < num a \<and> num a < m \<longrightarrow>
            pow a (- 1) = pow a (m - 2)
          \<and> bindR (pow a (m - 2)) (\<lambda>i. gf_mul i a) = pow a 0
          \<and> pow a 0 = Inr \<lparr>num = 1, prime = m\<rparr>)"
proof -
  have m1: "1 < m" using assms(1) by (rule is_prime_gt_1)
  have p1: "pow a e = pow a (e mod (m - 1))"
    using assms(2) m1 by (simp add: pow_same)
  have "m - 2 = - 1 + (m - 1)" by simp
  then have e1: "(- 1) mod (m - 1) = (m - 2) mod (m - 1)"
    by (simp only: mod_add_self2)
  have p2: "pow a (- 1) = pow a (m - 2)"
    using assms(2) m1 e1 by (simp add: pow_same)
  have p4: "pow a 0 = Inr \<lparr>num = 1, prime = m\<rparr>"
    using assms(2) m1 by (simp add: pow_same)
  have p3: "bindR (pow a (m - 2)) (\<lambda>i. gf_mul i a) = pow a 0"
    if "0 < num a" and "num a < m"
  proof (cases "m = 2")
    case True
    with that have "num a = 1" by simp
    with True assms(2) show ?thesis by (simp add: pow_same gf_mul_same)
  next
    case False
    with m1 have e2: "(m - 2) mod (m - 1) = m - 2" by simp
    have "nat (m - 1) = Suc (nat (m - 2))" using m1 by simp
    then have "num a ^ nat (m - 1) = num a ^ nat (m - 2) * num a" by simp
    then have "(num a ^ nat (m - 2) mod m * num a) mod m = num a ^ nat (m - 1) mod m"
      by (simp add: mod_mult_left_eq)
    also have "\<dots> = 1" using assms(1) that by (rule fermat_little)
    finally show ?thesis using assms(2) m1 e2 by (simp add: pow_same gf_mul_same)
  qed
  from p1 p2 p3 p4 show ?thesis by blast
qed

theorem pow_inverse_exponent_witness:
  "is_prime 5 \<and> prime \<lparr>num = 2, prime = 5\<rparr> = 5 \<and> (0::int) < 2 \<and> (2::int) < 5
   \<and> pow \<lparr>num = 2, prime = 5\<rparr> 7 = pow \<lparr>num = 2, prime = 5\<rparr> 3
   \<and> pow \<lparr>num = 2, prime = 5\<rparr> (- 1) = Inr \<lparr>num = 3, prime = 5\<rparr>
   \<and> pow \<lparr>num = 2, prime = 5\<rparr> (5 - 2) = Inr \<lparr>num = 3, prime = 5\<rparr>
   \<and> bindR (pow \<lparr>num = 2, prime = 5\<rparr> (5 - 2)) (\<lambda>i. gf_mul i \<lparr>num = 2, prime = 5\<rparr>)
       = Inr \<lparr>num = 1, prime = 5\<rparr>"
  using is_prime_5 pow_inverse_exponent [of 5 "\<lparr>num = 2, prime = 5\<rparr>" 7]
  by (simp add: pow_same)

section \<open>Facts about the curve\<close>

lemma P_gt_2: "2 < secp256k1_P"
  by (simp add: secp256k1_P_def)

lemma N_gt_2: "2 < secp256k1_N"
  by (simp add: secp256k1_N_def)

lemma N_less_P: "secp256k1_N < secp256k1_P"
  by (simp add: secp256k1_N_def secp256k1_P_def)

lemma gf_add_field:
  "prime b = prime a \<Longrightarrow> 0 < prime a \<Longrightarrow>
   gf_add a b = Inr \<lparr>num = (num a + num b) mod prime a, prime = prime a\<rparr>"
  by (simp add: gf_add_same)

lemma gf_sub_field:
  "prime b = prime a \<Longrightarrow> 0 < prime a \<Longrightarrow>
   gf_sub a b = Inr \<lparr>num = (num a - num b) mod prime a, prime = prime a\<rparr>"
  by (simp add: gf_sub_same)

lemma gf_mul_field:
  "prime b = prime a \<Longrightarrow> 0 < prime a \<Longrightarrow>
   gf_mul a b = Inr \<lparr>num = (num a * num b) mod prime a, prime = prime a\<rparr>"
  by (simp add: gf_mul_same)

lemma gf_neg_field:
  "0 < prime a \<Longrightarrow> gf_neg a = Inr \<lparr>num = (- num a) mod prime a, prime = prime a\<rparr>"
  by (simp add: gf_neg_same)

lemma pow_field:
  "1 < prime a \<Longrightarrow>
   pow a e = Inr \<lparr>num = num a ^ nat (e mod (prime a - 1)) mod prime a, prime = prime a\<rparr>"
  by (simp add: pow_same)

lemma gf_div_field:
  "prime b = prime a \<Longrightarrow> 1 < prime a \<Longrightarrow>
   gf_div a b =
     Inr \<lparr>num = (num a mod prime a)
                  * (num b ^ nat ((prime a - 2) mod (prime a - 1)) mod prime a) mod prime a,
          prime = prime a\<rparr>"
  by (simp add: gf_div_same)

lemma gf_eq_int_field:
  "0 < prime a \<Longrightarrow> gf_eq_int a n = Inr (num a mod prime a = n mod prime a)"
  by (simp add: gf_eq_int_def GF_nonzero gf_eq_def)

lemma gf_add_int_field:
  "0 < prime a \<Longrightarrow>
   gf_add_int a n = Inr \<lparr>num = (num a mod prime a + n mod prime a) mod prime a, prime = prime a\<rparr>"
  by (simp add: gf_add_int_def GF_nonzero gf_add_field)

lemma gf_sub_int_field:
  "0 < prime a \<Longrightarrow>
   gf_sub_int a n = Inr \<lparr>num = (num a mod prime a - n mod prime a) mod prime a, prime = prime a\<rparr>"
  by (simp add: gf_sub_int_def GF_nonzero gf_sub_field)

lemma gf_mul_int_field:
  "0 < prime a \<Longrightarrow>
   gf_mul_int a n = Inr \<lparr>num = (num a mod prime a * (n mod prime a)) mod prime a, prime = prime a\<rparr>"
  by (simp add: gf_mul_int_def GF_nonzero gf_mul_field)

lemma pow_int_field:
  "1 < prime a \<Longrightarrow>
   pow_int a n =
     Inr \<lparr>num = (num a mod prime a) ^ nat (n mod (prime a - 1)) mod prime a, prime = prime a\<rparr>"
  by (simp add: pow_int_def GF_nonzero pow_field)

lemmas field_ops =
  gf_add_field gf_sub_field gf_mul_field gf_neg_field pow_field gf_div_field
  gf_eq_int_field gf_add_int_field gf_sub_int_field gf_mul_int_field pow_int_field



lemma gf_add_closed:
  "prime a = m \<Longrightarrow> prime b = m \<Longrightarrow> 0 < m \<Longrightarrow> \<exists>c. gf_add a b = Inr c \<and> prime c = m"
  by (simp add: gf_add_same)

lemma gf_sub_closed:
  "prime a = m \<Longrightarrow> prime b = m \<Longrightarrow> 0 < m \<Longrightarrow> \<exists>c. gf_sub a b = Inr c \<and> prime c = m"
  by (simp add: gf_sub_same)

lemma gf_mul_closed:
  "prime a = m \<Longrightarrow> prime b = m \<Longrightarrow> 0 < m \<Longrightarrow> \<exists>c. gf_mul a b = Inr c \<and> prime c = m"
  by (simp add: gf_mul_same)

lemma gf_div_closed:
  "prime a = m \<Longrightarrow> prime b = m \<Longrightarrow> 1 < m \<Longrightarrow> \<exists>c. gf_div a b = Inr c \<and> prime c = m"
  by (simp add: gf_div_same)

lemma gf_neg_closed:
  "prime a = m \<Longrightarrow> 0 < m \<Longrightarrow> \<exists>c. gf_neg a = Inr c \<and> prime c = m"
  by (simp add: gf_neg_same)

lemma pow_closed:
  "prime a = m \<Longrightarrow> 1 < m \<Longrightarrow> \<exists>c. pow a e = Inr c \<and> prime c = m"
  by (simp add: pow_same)

lemma pow_int_closed:
  "prime a = m \<Longrightarrow> 1 < m \<Longrightarrow> \<exists>c. pow_int a n = Inr c \<and> prime c = m"
  by (simp add: pow_int_field)

lemma gf_add_int_closed:
  "prime a = m \<Longrightarrow> 0 < m \<Longrightarrow> \<exists>c. gf_add_int a n = Inr c \<and> prime c = m"
  by (simp add: gf_add_int_field)

lemma gf_sub_int_closed:
  "prime a = m \<Longrightarrow> 0 < m \<Longrightarrow> \<exists>c. gf_sub_int a n = Inr c \<and> prime c = m"
  by (simp add: gf_sub_int_field)

lemma gf_mul_int_closed:
  "prime a = m \<Longrightarrow> 0 < m \<Longrightarrow> \<exists>c. gf_mul_int a n = Inr c \<and> prime c = m"
  by (simp add: gf_mul_int_field)

lemma add_total:
  assumes "on_field p" and "on_field q"
  shows "\<exists>r. add p q = Inr r \<and> on_field r"
proof -
  let ?P = secp256k1_P
  have P: "1 < ?P" "0 < ?P" using P_gt_2 by simp_all
  from assms have pr: "prime (x p) = ?P" "prime (y p) = ?P" "prime (x q) = ?P" "prime (y q) = ?P"
    by (simp_all add: on_field_def)
  let ?slope = "if gf_eq (x p) (x q) \<and> gf_eq (y p) (y q)
            then bindR (pow_int (x p) 2) (\<lambda>a. bindR (gf_mul_int a 3) (\<lambda>b.
                 bindR (gf_mul_int (y p) 2) (\<lambda>c. gf_div b c)))
            else bindR (gf_sub (y q) (y p)) (\<lambda>a. bindR (gf_sub (x q) (x p)) (\<lambda>b.
                 gf_div a b))"
  have "\<exists>lam. ?slope = Inr lam \<and> prime lam = ?P"
  proof (cases "gf_eq (x p) (x q) \<and> gf_eq (y p) (y q)")
    case True
    obtain a where a: "pow_int (x p) 2 = Inr a" "prime a = ?P"
      using pow_int_closed [OF pr(1) P(1)] by blast
    obtain b where b: "gf_mul_int a 3 = Inr b" "prime b = ?P"
      using gf_mul_int_closed [OF a(2) P(2)] by blast
    obtain c where c: "gf_mul_int (y p) 2 = Inr c" "prime c = ?P"
      using gf_mul_int_closed [OF pr(2) P(2)] by blast
    obtain l where l: "gf_div b c = Inr l" "prime l = ?P"
      using gf_div_closed [OF b(2) c(2) P(1)] by blast
    show ?thesis unfolding if_P [OF True] using a b c l by simp
  next
    case False
    obtain a where a: "gf_sub (y q) (y p) = Inr a" "prime a = ?P"
      using gf_sub_closed [OF pr(4) pr(2) P(2)] by blast
    obtain b where b: "gf_sub (x q) (x p) = Inr b" "prime b = ?P"
      using gf_sub_closed [OF pr(3) pr(1) P(2)] by blast
    obtain l where l: "gf_div a b = Inr l" "prime l = ?P"
      using gf_div_closed [OF a(2) b(2) P(1)] by blast
    show ?thesis unfolding if_not_P [OF False] using a b l by simp
  qed
  then obtain lam where lam: "?slope = Inr lam" "prime lam = ?P" by blast
  obtain l2 where l2: "pow_int lam 2 = Inr l2" "prime l2 = ?P"
    using pow_int_closed [OF lam(2) P(1)] by blast
  obtain t where t: "gf_sub l2 (x p) = Inr t" "prime t = ?P"
    using gf_sub_closed [OF l2(2) pr(1) P(2)] by blast
  obtain rx where rx: "gf_sub t (x q) = Inr rx" "prime rx = ?P"
    using gf_sub_closed [OF t(2) pr(3) P(2)] by blast
  obtain d where d: "gf_sub (x p) rx = Inr d" "prime d = ?P"
    using gf_sub_closed [OF pr(1) rx(2) P(2)] by blast
  obtain m where m: "gf_mul lam d = Inr m" "prime m = ?P"
    using gf_mul_closed [OF lam(2) d(2) P(2)] by blast
  obtain ry where ry: "gf_sub m (y p) = Inr ry" "prime ry = ?P"
    using gf_sub_closed [OF m(2) pr(2) P(2)] by blast
  have "add p q = Inr \<lparr>x = rx, y = ry\<rparr>"
    unfolding add_def lam(1) using l2 t rx d m ry by simp
  then show ?thesis using rx(2) ry(2) by (simp add: on_field_def)
qed

lemma zero_point_on_field:
  "on_field \<lparr>x = \<lparr>num = 0, prime = secp256k1_P\<rparr>, y = \<lparr>num = 0, prime = secp256k1_P\<rparr>\<rparr>"
  by (simp add: on_field_def)

lemma G_on_field: "on_field secp256k1_G"
  by (simp add: on_field_def secp256k1_G_def)

lemma priv2pub_loop_total:
  "on_field pub \<Longrightarrow> on_field G \<Longrightarrow> \<exists>r. priv2pub_loop n sk pub G b = Inr r \<and> on_field r"
proof (induction n arbitrary: pub G b)
  case 0
  then show ?case by simp
next
  case (Suc n)
  have P: "0 < secp256k1_P" using P_gt_2 by simp
  from Suc.prems have px: "0 < prime (x pub)" "0 < prime (y pub)"
    using P by (simp_all add: on_field_def)
  obtain G' where G': "add G G = Inr G'" "on_field G'"
    using add_total [OF Suc.prems(2) Suc.prems(2)] by blast
  obtain s where s: "add pub G = Inr s" "on_field s"
    using add_total [OF Suc.prems(1) Suc.prems(2)] by blast
  let ?acc = "if b AND sk \<noteq> 0
            then bindR (gf_eq_int (x pub) 0) (\<lambda>zx.
                   if zx
                   then bindR (gf_eq_int (y pub) 0) (\<lambda>zy. if zy then Inr G else add pub G)
                   else add pub G)
            else Inr pub"
  have "\<exists>pub'. ?acc = Inr pub' \<and> on_field pub'"
    using px s Suc.prems by (simp add: gf_eq_int_field)
  then obtain pub' where acc: "?acc = Inr pub'" "on_field pub'" by blast
  from Suc.IH [OF acc(2) G'(2)] obtain r where
    "priv2pub_loop n sk pub' G' (push_bit 1 b) = Inr r" "on_field r" by blast
  then show ?case using acc(1) G'(1) by (simp del: push_bit_of_1)
qed

lemma priv2pub_loop_no_bit:
  "on_field G \<Longrightarrow> (\<And>j. j < n \<Longrightarrow> push_bit j b AND sk = 0) \<Longrightarrow>
   priv2pub_loop n sk pub G b = Inr pub"
proof (induction n arbitrary: G b)
  case 0
  then show ?case by simp
next
  case (Suc n)
  obtain G' where G': "add G G = Inr G'" "on_field G'"
    using add_total [OF Suc.prems(1) Suc.prems(1)] by blast
  have b0: "b AND sk = 0" using Suc.prems(2) [of 0] by simp
  have "push_bit j (push_bit 1 b) AND sk = 0" if "j < n" for j
    using Suc.prems(2) [of "Suc j"] that by (simp add: push_bit_Suc mult.commute)
  from Suc.IH [OF G'(2) this]
  have "priv2pub_loop n sk pub G' (push_bit 1 b) = Inr pub" by simp
  then show ?case using b0 G'(1) by (simp del: push_bit_of_1)
qed

lemma priv2pub_unfold:
  "priv2pub sk Q =
     priv2pub_loop 256 (num sk) zero_point (case Q of None \<Rightarrow> secp256k1_G | Some q \<Rightarrow> q) 1"
proof -
  have "GF 0 secp256k1_P = Inr \<lparr>num = 0, prime = secp256k1_P\<rparr>"
    using P_gt_2 by (simp add: GF_nonzero)
  then show ?thesis by (simp add: priv2pub_def zero_point_def getNum_def)
qed

lemma priv2pub_total:
  assumes "\<And>q. Q = Some q \<Longrightarrow> on_field q"
  shows "\<exists>r. priv2pub sk Q = Inr r \<and> on_field r"
proof -
  have "on_field (case Q of None \<Rightarrow> secp256k1_G | Some q \<Rightarrow> q)"
    using assms G_on_field by (cases Q) simp_all
  moreover have "on_field zero_point" by (simp add: zero_point_def on_field_def)
  ultimately show ?thesis unfolding priv2pub_unfold by (rule priv2pub_loop_total [rotated])
qed

lemma priv2pub_total_Some:
  "on_field q \<Longrightarrow> \<exists>r. priv2pub sk (Some q) = Inr r \<and> on_field r"
  by (rule priv2pub_total) simp

lemma priv2pub_total_None: "\<exists>r. priv2pub sk None = Inr r \<and> on_field r"
  by (rule priv2pub_total) simp

lemma priv2pub_zero:
  assumes "num sk = 0" and "\<And>q. Q = Some q \<Longrightarrow> on_field q"
  shows "priv2pub sk Q = Inr zero_point"
proof -
  have "on_field (case Q of None \<Rightarrow> secp256k1_G | Some q \<Rightarrow> q)"
    using assms(2) G_on_field by (cases Q) simp_all
  then show ?thesis unfolding priv2pub_unfold assms(1)
    by (rule priv2pub_loop_no_bit) simp
qed

lemma priv2pub_one:
  assumes "num sk = 1" and "\<And>q. Q = Some q \<Longrightarrow> on_field q"
  shows "priv2pub sk Q = Inr (case Q of None \<Rightarrow> secp256k1_G | Some q \<Rightarrow> q)"
proof -
  let ?G = "case Q of None \<Rightarrow> secp256k1_G | Some q \<Rightarrow> q"
  have G: "on_field ?G"
    using assms(2) G_on_field by (cases Q) simp_all
  obtain G' where G': "add ?G ?G = Inr G'" "on_field G'"
    using add_total [OF G G] by blast
  have P: "0 < secp256k1_P" using P_gt_2 by simp
  have rest: "priv2pub_loop 255 1 ?G G' (push_bit 1 1) = Inr ?G"
  proof (rule priv2pub_loop_no_bit [OF G'(2)])
    fix j :: nat
    have "even (push_bit j (push_bit 1 (1::int)))" by (simp add: push_bit_eq_mult)
    then show "push_bit j (push_bit 1 1) AND (1::int) = 0"
      by (simp add: and_one_eq del: push_bit_of_1)
  qed
  have "priv2pub_loop (Suc 255) 1 zero_point ?G 1
           = bindR (add ?G ?G) (\<lambda>G'. priv2pub_loop 255 1 ?G G' (push_bit 1 1))"
    using P by (subst priv2pub_loop.simps(2))
      (simp add: zero_point_def gf_eq_int_field del: push_bit_of_1)
  moreover have "(256::nat) = Suc 255" by simp
  ultimately have "priv2pub_loop 256 1 zero_point ?G 1
           = bindR (add ?G ?G) (\<lambda>G'. priv2pub_loop 255 1 ?G G' (push_bit 1 1))"
    by (simp only:)
  then show ?thesis unfolding priv2pub_unfold assms(1) using G'(1) rest by simp
qed

lemma genPriv_dropWhile:
  "genPriv rs =
     (case dropWhile (\<lambda>c. c \<le> 0 \<or> secp256k1_N \<le> c) rs of
        [] \<Rightarrow> None
      | key # rest \<Rightarrow> Some (Inr \<lparr>num = key, prime = secp256k1_P\<rparr>, rest))"
proof (induction rs)
  case Nil
  then show ?case by simp
next
  case (Cons key rs)
  show ?case
  proof (cases "key \<le> 0 \<or> secp256k1_N \<le> key")
    case True
    with Cons show ?thesis by simp
  next
    case False
    then have "0 \<le> key" "key < secp256k1_P" using N_less_P by simp_all
    then have "GF key secp256k1_P = Inr \<lparr>num = key, prime = secp256k1_P\<rparr>"
      using P_gt_2 by (simp add: GF_nonzero)
    with False show ?thesis by simp
  qed
qed

lemma Gx_value:
  "num (x secp256k1_G) = 0x79BE667EF9DCBBAC55A06295CE870B07029BFCDB2DCE28D959F2815B16F81798"
  by (simp add: secp256k1_G_def secp256k1_P_def)

lemma Gy_value:
  "num (y secp256k1_G) = 0x483ADA7726A3C4655DA4FBFC0E1108A8FD17B448A68554199C47D08FFB10D4B8"
  by (simp add: secp256k1_G_def secp256k1_P_def)

text \<open>
  The generator is a point of the curve \<open>y\<^sup>2 = x\<^sup>3 + 7\<close>: the two sides differ by a
  multiple of \<open>P\<close>, checked on the integers.
\<close>

lemma G_on_curve:
  "num (y secp256k1_G) ^ 2 mod secp256k1_P = (num (x secp256k1_G) ^ 3 + 7) mod secp256k1_P"
proof -
  let ?q = "0x1B888E01A06E974017A28A5B4DA436169761C9730B7AEEDF75FC60F6A33CFC7792FE74711F025D590B10E57F1B3A7CE38FFC4C885C515894B45C19C9F413E5E9 :: int"
  have "num (y secp256k1_G) ^ 2 + ?q * secp256k1_P = num (x secp256k1_G) ^ 3 + 7"
    unfolding Gx_value Gy_value secp256k1_P_def by simp
  then have "(num (y secp256k1_G) ^ 2 + ?q * secp256k1_P) mod secp256k1_P
           = (num (x secp256k1_G) ^ 3 + 7) mod secp256k1_P"
    by (simp only:)
  then show ?thesis by (simp only: mod_mult_self1)
qed

lemma add_result_y:
  assumes "add p q = Inr r"
  shows "\<exists>lam d m. gf_sub (x p) (x r) = Inr d \<and> gf_mul lam d = Inr m
                   \<and> gf_sub m (y p) = Inr (y r)"
  using assms by (clarsimp simp add: add_def bindR_eq_Inr) blast

lemma add_never_left_operand:
  assumes "on_field p" and "num (y p) mod secp256k1_P \<noteq> (- num (y p)) mod secp256k1_P"
  shows "add p q \<noteq> Inr p"
proof
  assume "add p q = Inr p"
  then obtain lam d m where d: "gf_sub (x p) (x p) = Inr d" and m: "gf_mul lam d = Inr m"
    and ry: "gf_sub m (y p) = Inr (y p)"
    using add_result_y by blast
  have P: "0 < secp256k1_P" using P_gt_2 by simp
  from assms(1) have pr: "prime (x p) = secp256k1_P" "prime (y p) = secp256k1_P"
    by (simp_all add: on_field_def)
  from d pr P have d0: "d = \<lparr>num = 0, prime = secp256k1_P\<rparr>"
    by (simp add: gf_sub_field)
  have pl: "prime lam = secp256k1_P"
  proof (rule ccontr)
    assume "prime lam \<noteq> secp256k1_P"
    with m d0 show False by (simp add: gf_mul_def)
  qed
  from m d0 pl P have m0: "m = \<lparr>num = 0, prime = secp256k1_P\<rparr>"
    by (simp add: gf_mul_field)
  from ry m0 pr P have "y p = \<lparr>num = (- num (y p)) mod secp256k1_P, prime = secp256k1_P\<rparr>"
    by (simp add: gf_sub_field)
  then have "num (y p) = (- num (y p)) mod secp256k1_P"
    by (metis gf.select_convs(1))
  then have "num (y p) mod secp256k1_P = (- num (y p)) mod secp256k1_P"
    by (metis mod_mod_trivial)
  with assms(2) show False by simp
qed

section \<open>The zero scalar\<close>

text \<open>
  Claim C10.  For a scalar whose value is 0, \<open>priv2pub\<close> returns, without any failure,
  the pair of coordinates (0, 0) modulo \<open>P\<close> that its accumulator starts with: no bit of
  the scalar is set, so no round touches the accumulator.  This holds with the generator
  as base point, which gives the public key, and with every base point whose coordinates
  are modulo \<open>P\<close>.
\<close>

theorem zero_scalar_gives_zero_pair:
  assumes "num sk = 0"
  shows "priv2pub sk None = Inr \<lparr>x = \<lparr>num = 0, prime = secp256k1_P\<rparr>,
                                 y = \<lparr>num = 0, prime = secp256k1_P\<rparr>\<rparr>
       \<and> (on_field q \<longrightarrow>
            priv2pub sk (Some q) = Inr \<lparr>x = \<lparr>num = 0, prime = secp256k1_P\<rparr>,
                                        y = \<lparr>num = 0, prime = secp256k1_P\<rparr>\<rparr>)"
  using priv2pub_zero [OF assms, of None] priv2pub_zero [OF assms, of "Some q"]
  by (simp add: zero_point_def)

theorem zero_scalar_gives_zero_pair_witness:
  "num \<lparr>num = 0, prime = secp256k1_N\<rparr> = 0 \<and> on_field secp256k1_G
   \<and> priv2pub \<lparr>num = 0, prime = secp256k1_N\<rparr> None
       = Inr \<lparr>x = \<lparr>num = 0, prime = secp256k1_P\<rparr>, y = \<lparr>num = 0, prime = secp256k1_P\<rparr>\<rparr>
   \<and> priv2pub \<lparr>num = 0, prime = secp256k1_N\<rparr> (Some secp256k1_G)
       = Inr \<lparr>x = \<lparr>num = 0, prime = secp256k1_P\<rparr>, y = \<lparr>num = 0, prime = secp256k1_P\<rparr>\<rparr>"
  using zero_scalar_gives_zero_pair [of "\<lparr>num = 0, prime = secp256k1_N\<rparr>" secp256k1_G]
    G_on_field
  by simp

section \<open>The result of genPriv\<close>

text \<open>
  Claim C3 says that the element \<open>genPriv\<close> returns is over the group order \<open>N\<close>.
  The code builds it with \<open>GF (key, secp256k1.P)\<close>: for the first number 1 the result
  is 1 modulo \<open>P\<close>, and \<open>P\<close> is not \<open>N\<close>.
\<close>

theorem genPriv_counterexample:
  "genPriv [1] = Some (Inr \<lparr>num = 1, prime = secp256k1_P\<rparr>, [])
   \<and> prime \<lparr>num = 1, prime = secp256k1_P\<rparr> \<noteq> secp256k1_N"
  using N_less_P by (simp add: genPriv_dropWhile secp256k1_N_def)

text \<open>
  Claim C3, as the code has it.  \<open>genPriv\<close> returns an element over the field prime
  \<open>P\<close> whose value lies strictly between 0 and \<open>N\<close>: the first of the numbers read
  that does, itself and not reduced, every number before it (at most 0, or at least \<open>N\<close>)
  having been dropped.  It returns as soon as such a number is read, and goes on reading
  as long as none is.
\<close>

theorem genPriv_result:
  "(genPriv rs = None \<longleftrightarrow> (\<forall>c\<in>set rs. c \<le> 0 \<or> secp256k1_N \<le> c))
   \<and> (\<forall>g rest. genPriv rs = Some (g, rest) \<longrightarrow>
         (\<exists>key. g = Inr \<lparr>num = key, prime = secp256k1_P\<rparr> \<and> 0 < key \<and> key < secp256k1_N
            \<and> rs = takeWhile (\<lambda>c. c \<le> 0 \<or> secp256k1_N \<le> c) rs @ key # rest))"
proof -
  let ?bad = "\<lambda>c. c \<le> 0 \<or> secp256k1_N \<le> c"
  have none: "genPriv rs = None \<longleftrightarrow> (\<forall>c\<in>set rs. ?bad c)"
  proof (cases "dropWhile ?bad rs")
    case Nil
    then have "\<forall>c\<in>set rs. ?bad c"
      by (simp only: dropWhile_eq_Nil_conv)
    then show ?thesis unfolding genPriv_dropWhile Nil by simp
  next
    case (Cons key rest)
    have "dropWhile ?bad rs \<noteq> []" using Cons by simp
    then have "\<not> (\<forall>c\<in>set rs. ?bad c)"
      by (simp only: dropWhile_eq_Nil_conv) simp
    with Cons show ?thesis by (simp add: genPriv_dropWhile)
  qed
  have some: "\<exists>key. g = Inr \<lparr>num = key, prime = secp256k1_P\<rparr> \<and> 0 < key \<and> key < secp256k1_N
            \<and> rs = takeWhile ?bad rs @ key # rest"
    if "genPriv rs = Some (g, rest)" for g rest
  proof (cases "dropWhile ?bad rs")
    case Nil
    from that show ?thesis unfolding genPriv_dropWhile Nil by simp
  next
    case (Cons key rest')
    with that have g: "g = Inr \<lparr>num = key, prime = secp256k1_P\<rparr>" and r: "rest' = rest"
      by (simp_all add: genPriv_dropWhile)
    have "\<not> ?bad key" using Cons hd_dropWhile [of ?bad rs] by simp
    moreover have "rs = takeWhile ?bad rs @ key # rest"
      using takeWhile_dropWhile_id [of ?bad rs] Cons r by simp
    ultimately show ?thesis using g by auto
  qed
  from none some show ?thesis by blast
qed

theorem genPriv_result_witness:
  "genPriv [0, secp256k1_N, 5, 7] = Some (Inr \<lparr>num = 5, prime = secp256k1_P\<rparr>, [7])
   \<and> (0::int) < 5 \<and> 5 < secp256k1_N
   \<and> [0, secp256k1_N, 5, 7]
       = takeWhile (\<lambda>c. c \<le> 0 \<or> secp256k1_N \<le> c) [0, secp256k1_N, 5, 7] @ 5 # [7]
   \<and> genPriv [0, secp256k1_N] = None"
  using genPriv_result [of "[0, secp256k1_N, 5, 7]"] genPriv_result [of "[0, secp256k1_N]"]
  by (simp add: genPriv_dropWhile secp256k1_N_def)

section \<open>The pair (0, 0) in an addition\<close>

text \<open>
  In \<open>priv2pub\<close> the pair (0, 0) stands for the identity: in a round whose bit is set,
  an accumulator that is (0, 0) is replaced by the running point \<open>G\<close> itself, without a
  call of \<open>add\<close>; so the scalar 1 gives back the base point, for every base point with
  coordinates modulo \<open>P\<close>.  The test is in the caller; \<open>add\<close> has none.
\<close>

lemma identity_copied_in_priv2pub:
  assumes "on_field G"
  shows "(b AND sk \<noteq> 0 \<longrightarrow>
            priv2pub_loop (Suc n) sk
                \<lparr>x = \<lparr>num = 0, prime = secp256k1_P\<rparr>, y = \<lparr>num = 0, prime = secp256k1_P\<rparr>\<rparr> G b
              = bindR (add G G) (\<lambda>G'. priv2pub_loop n sk G G' (push_bit 1 b)))
       \<and> (num k = 1 \<longrightarrow> priv2pub k (Some G) = Inr G)"
proof -
  have P: "0 < secp256k1_P" using P_gt_2 by simp
  have "priv2pub k (Some G) = Inr G" if "num k = 1"
    using priv2pub_one [OF that, of "Some G"] assms by simp
  then show ?thesis
    using P by (simp add: gf_eq_int_field del: push_bit_of_1)
qed

text \<open>
  With the pair (0, 0) as its right operand \<open>add\<close> never returns its left operand, when
  that is a point whose second coordinate is not its own negative.
\<close>

lemma add_zero_point_not_left:
  assumes "on_field p" and "num (y p) mod secp256k1_P \<noteq> (- num (y p)) mod secp256k1_P"
  shows "add p zero_point \<noteq> Inr p"
  using assms by (rule add_never_left_operand)

text \<open>
  Claim C5.  The claim is that \<open>add\<close> returns \<open>P\<close> for a point \<open>P\<close> of the curve and
  the identity, by a case of its own.  \<open>add\<close> has only the tangent and the chord: for the
  generator, a point of the curve \<open>y\<^sup>2 = x\<^sup>3 + 7\<close>, and the pair (0, 0) it does not
  return the generator.  \<open>main\<close> hands \<open>add\<close> that pair without the test that
  \<open>priv2pub\<close> makes: for a digest that is 0 modulo \<open>N\<close>, the negated digest is 0, and
  \<open>priv2pub\<close> of the scalar 0 is the pair (0, 0), the right operand of \<open>add\<close> in the
  loop of the verification.
\<close>

theorem add_identity_case_missing:
  "add secp256k1_G \<lparr>x = \<lparr>num = 0, prime = secp256k1_P\<rparr>, y = \<lparr>num = 0, prime = secp256k1_P\<rparr>\<rparr>
     \<noteq> Inr secp256k1_G
   \<and> num (y secp256k1_G) ^ 2 mod secp256k1_P = (num (x secp256k1_G) ^ 3 + 7) mod secp256k1_P
   \<and> gf_neg \<lparr>num = 0, prime = secp256k1_N\<rparr> = Inr \<lparr>num = 0, prime = secp256k1_N\<rparr>
   \<and> priv2pub \<lparr>num = 0, prime = secp256k1_N\<rparr> None
       = Inr \<lparr>x = \<lparr>num = 0, prime = secp256k1_P\<rparr>, y = \<lparr>num = 0, prime = secp256k1_P\<rparr>\<rparr>"
proof -
  have a: "add secp256k1_G
          \<lparr>x = \<lparr>num = 0, prime = secp256k1_P\<rparr>, y = \<lparr>num = 0, prime = secp256k1_P\<rparr>\<rparr>
        \<noteq> Inr secp256k1_G"
  proof (rule add_never_left_operand [OF G_on_field])
    show "num (y secp256k1_G) mod secp256k1_P \<noteq> (- num (y secp256k1_G)) mod secp256k1_P"
      by (simp add: secp256k1_G_def secp256k1_P_def)
  qed
  have c: "gf_neg \<lparr>num = 0, prime = secp256k1_N\<rparr> = Inr \<lparr>num = 0, prime = secp256k1_N\<rparr>"
    using N_gt_2 by (simp add: gf_neg_field)
  have d: "priv2pub \<lparr>num = 0, prime = secp256k1_N\<rparr> None
       = Inr \<lparr>x = \<lparr>num = 0, prime = secp256k1_P\<rparr>, y = \<lparr>num = 0, prime = secp256k1_P\<rparr>\<rparr>"
    unfolding zero_point_def [symmetric] by (rule priv2pub_zero) simp_all
  from a G_on_curve c d show ?thesis by (intro conjI)
qed

section \<open>The signing loop\<close>

lemma sign_attempt_value:
  assumes "prime message = secp256k1_N" and "priv2pub sk None = Inr pk"
  shows "sign_attempt message privKey sk =
           Inr (x pk, \<lparr>num = spec_s (num message) (num privKey) (num (x pk)) (num sk),
                       prime = secp256k1_N\<rparr>)"
proof -
  let ?N = secp256k1_N
  have N: "0 < ?N" "1 < ?N" "?N \<noteq> 0" using N_gt_2 by simp_all
  have e: "(?N - 2) mod (?N - 1) = ?N - 2" using N_gt_2 by simp
  have d: "GF (getNum privKey) ?N = Inr \<lparr>num = num privKey mod ?N, prime = ?N\<rparr>"
    using N by (simp add: GF_nonzero getNum_def)
  have r: "GF (getNum (x pk)) ?N = Inr \<lparr>num = num (x pk) mod ?N, prime = ?N\<rparr>"
    using N by (simp add: GF_nonzero getNum_def)
  have k: "GF (getNum sk) ?N = Inr \<lparr>num = num sk mod ?N, prime = ?N\<rparr>"
    using N by (simp add: GF_nonzero getNum_def)
  have dr: "gf_mul \<lparr>num = num privKey mod ?N, prime = ?N\<rparr> \<lparr>num = num (x pk) mod ?N, prime = ?N\<rparr>
          = Inr \<lparr>num = (num privKey * num (x pk)) mod ?N, prime = ?N\<rparr>"
    using N by (simp add: gf_mul_field mod_simps)
  have numer: "gf_add message \<lparr>num = (num privKey * num (x pk)) mod ?N, prime = ?N\<rparr>
          = Inr \<lparr>num = (num message + num privKey * num (x pk)) mod ?N, prime = ?N\<rparr>"
    using N assms(1) by (simp add: gf_add_field mod_simps)
  have s: "gf_div \<lparr>num = (num message + num privKey * num (x pk)) mod ?N, prime = ?N\<rparr>
                  \<lparr>num = num sk mod ?N, prime = ?N\<rparr>
          = Inr \<lparr>num = spec_s (num message) (num privKey) (num (x pk)) (num sk), prime = ?N\<rparr>"
    using N e by (simp add: gf_div_field spec_s_def mod_simps)
  show ?thesis
    unfolding sign_attempt_def assms(2) by (simp add: Let_def d r dr numer k s)
qed

lemma sign_rejected_value:
  assumes "prime R = secp256k1_P" and "prime S = secp256k1_N"
  shows "sign_rejected R S = Inr (num R = 0 \<or> num S = 0)"
proof -
  have "GF 0 secp256k1_P = Inr \<lparr>num = 0, prime = secp256k1_P\<rparr>"
    using P_gt_2 by (simp add: GF_nonzero)
  moreover have "GF 0 secp256k1_N = Inr \<lparr>num = 0, prime = secp256k1_N\<rparr>"
    using N_gt_2 by (simp add: GF_nonzero)
  ultimately show ?thesis
    using assms by (auto simp add: sign_rejected_def gf_eq_def)
qed

lemma sign_inner_step:
  assumes "prime message = secp256k1_N" and "genPriv rs = Some (Inr sk, rest)"
    and "priv2pub sk None = Inr pk"
  shows "sign_inner message privKey rs =
           (if num (x pk) = 0 \<or> spec_s (num message) (num privKey) (num (x pk)) (num sk) = 0
            then sign_inner message privKey rest
            else Some (Inr ((x pk, \<lparr>num = spec_s (num message) (num privKey) (num (x pk)) (num sk),
                                     prime = secp256k1_N\<rparr>), rest)))"
proof -
  have "on_field pk" using priv2pub_total [of None sk] assms(3) by simp
  then have "prime (x pk) = secp256k1_P" by (simp add: on_field_def)
  then have rej: "sign_rejected (x pk) \<lparr>num = spec_s (num message) (num privKey) (num (x pk)) (num sk),
                       prime = secp256k1_N\<rparr>
     = Inr (num (x pk) = 0 \<or> spec_s (num message) (num privKey) (num (x pk)) (num sk) = 0)"
    by (simp add: sign_rejected_value)
  show ?thesis
    by (subst sign_inner.simps)
       (simp add: assms(2) sign_attempt_value [OF assms(1) assms(3)] rej)
qed


lemma genPriv_Some:
  assumes "genPriv rs = Some (g, rest)"
  shows "\<exists>key. g = Inr \<lparr>num = key, prime = secp256k1_P\<rparr> \<and> 0 < key \<and> key < secp256k1_N
            \<and> key \<in> set rs \<and> set rest \<subseteq> set rs \<and> length rest < length rs"
proof -
  let ?bad = "\<lambda>c. c \<le> 0 \<or> secp256k1_N \<le> c"
  show ?thesis
  proof (cases "dropWhile ?bad rs")
    case Nil
    from assms show ?thesis unfolding genPriv_dropWhile Nil by simp
  next
    case (Cons key rest')
    with assms have g: "g = Inr \<lparr>num = key, prime = secp256k1_P\<rparr>" and r: "rest' = rest"
      by (simp_all add: genPriv_dropWhile)
    have nb: "\<not> ?bad key" using Cons hd_dropWhile [of ?bad rs] by simp
    have "set (dropWhile ?bad rs) \<subseteq> set rs" by (rule set_dropWhileD [THEN subsetI])
    then have sub: "key \<in> set rs" "set rest \<subseteq> set rs" using Cons r by simp_all
    have "length rest < length rs" using assms by (rule genPriv_shorter)
    with g nb sub show ?thesis by auto
  qed
qed

lemma sign_inner_no_error:
  assumes "prime message = secp256k1_N"
  shows "sign_inner message privKey rs \<noteq> Some (Inl e)"
proof (induction "length rs" arbitrary: rs rule: less_induct)
  case less
  show ?case
  proof (cases "genPriv rs")
    case None
    then show ?thesis by (subst sign_inner.simps) simp
  next
    case (Some a)
    obtain g rest where a: "a = (g, rest)" by (cases a)
    from Some a genPriv_Some obtain key where
      g: "g = Inr \<lparr>num = key, prime = secp256k1_P\<rparr>" and sh: "length rest < length rs"
      by blast
    obtain pk where pk: "priv2pub \<lparr>num = key, prime = secp256k1_P\<rparr> None = Inr pk"
      using priv2pub_total [of None] by auto
    from less [OF sh] show ?thesis
      using sign_inner_step [OF assms Some [unfolded a g] pk] by simp
  qed
qed

lemma sign_inner_returns:
  assumes "prime message = secp256k1_N"
    and "sign_inner message privKey rs = Some (Inr ((R, S), rest))"
  shows "\<exists>k pk. k \<in> set rs \<and> 0 < k \<and> k < secp256k1_N
           \<and> priv2pub \<lparr>num = k, prime = secp256k1_P\<rparr> None = Inr pk \<and> R = x pk
           \<and> S = \<lparr>num = spec_s (num message) (num privKey) (num (x pk)) k, prime = secp256k1_N\<rparr>
           \<and> num R \<noteq> 0 \<and> num S \<noteq> 0"
  using assms(2)
proof (induction "length rs" arbitrary: rs rule: less_induct)
  case less
  show ?case
  proof (cases "genPriv rs")
    case None
    with less.prems show ?thesis by (subst (asm) sign_inner.simps) simp
  next
    case (Some a)
    obtain g rest' where a: "a = (g, rest')" by (cases a)
    from Some a genPriv_Some obtain key where
      g: "g = Inr \<lparr>num = key, prime = secp256k1_P\<rparr>" and key: "0 < key" "key < secp256k1_N"
      and mem: "key \<in> set rs" "set rest' \<subseteq> set rs" and sh: "length rest' < length rs"
      by blast
    obtain pk where pk: "priv2pub \<lparr>num = key, prime = secp256k1_P\<rparr> None = Inr pk"
      using priv2pub_total [of None] by auto
    note step = sign_inner_step [OF assms(1) Some [unfolded a g] pk, of privKey]
    show ?thesis
    proof (cases "num (x pk) = 0 \<or> spec_s (num message) (num privKey) (num (x pk)) key = 0")
      case True
      with step less.prems have "sign_inner message privKey rest' = Some (Inr ((R, S), rest))"
        by simp
      from less.hyps [OF sh this] mem(2) show ?thesis by blast
    next
      case False
      with step less.prems have "R = x pk"
        and "S = \<lparr>num = spec_s (num message) (num privKey) (num (x pk)) key, prime = secp256k1_N\<rparr>"
        by simp_all
      with False key mem(1) pk show ?thesis by auto
    qed
  qed
qed

lemma sign_inner_rest:
  assumes "prime message = secp256k1_N"
    and "sign_inner message privKey rs = Some (Inr (sig, rest))"
  shows "set rest \<subseteq> set rs"
  using assms(2)
proof (induction "length rs" arbitrary: rs rule: less_induct)
  case less
  show ?case
  proof (cases "genPriv rs")
    case None
    with less.prems show ?thesis by (subst (asm) sign_inner.simps) simp
  next
    case (Some a)
    obtain g rest' where a: "a = (g, rest')" by (cases a)
    from Some a genPriv_Some obtain key where
      g: "g = Inr \<lparr>num = key, prime = secp256k1_P\<rparr>"
      and mem: "set rest' \<subseteq> set rs" and sh: "length rest' < length rs"
      by blast
    obtain pk where pk: "priv2pub \<lparr>num = key, prime = secp256k1_P\<rparr> None = Inr pk"
      using priv2pub_total_None by blast
    note step = sign_inner_step [OF assms(1) Some [unfolded a g] pk, of privKey]
    show ?thesis
    proof (cases "num (x pk) = 0 \<or> spec_s (num message) (num privKey) (num (x pk)) key = 0")
      case True
      with step less.prems have "sign_inner message privKey rest' = Some (Inr (sig, rest))"
        by simp
      from less.hyps [OF sh this] mem show ?thesis by blast
    next
      case False
      with step less.prems have "rest = rest'" by simp
      with mem show ?thesis by simp
    qed
  qed
qed

lemma sign_loop_returns:
  assumes "prime message = secp256k1_N"
    and "sign_loop message privKey pubKey rs = Some (Inr ((R, S), rest))"
  shows "\<exists>k pk. k \<in> set rs \<and> 0 < k \<and> k < secp256k1_N
           \<and> priv2pub \<lparr>num = k, prime = secp256k1_P\<rparr> None = Inr pk \<and> R = x pk
           \<and> S = \<lparr>num = spec_s (num message) (num privKey) (num (x pk)) k, prime = secp256k1_N\<rparr>
           \<and> num R \<noteq> 0 \<and> num S \<noteq> 0"
  using assms(2)
proof (induction "length rs" arbitrary: rs rule: less_induct)
  case less
  note unroll = sign_loop.simps [of message privKey pubKey rs]
  show ?case
  proof (cases "sign_inner message privKey rs")
    case None
    with less.prems show ?thesis by (simp add: unroll)
  next
    case (Some res)
    show ?thesis
    proof (cases res)
      case (Inl e)
      with Some less.prems show ?thesis by (simp add: unroll)
    next
      case (Inr t)
      obtain R' S' rest' where t: "t = ((R', S'), rest')" by (cases t) auto
      have inner: "sign_inner message privKey rs = Some (Inr ((R', S'), rest'))"
        using Some Inr t by simp
      have sh: "length rest' < length rs" using inner by (rule sign_inner_shorter)
      have sub: "set rest' \<subseteq> set rs" using assms(1) inner by (rule sign_inner_rest)
      show ?thesis
      proof (cases "sign_check message pubKey R' S'")
        case (Inl e)
        with inner less.prems show ?thesis by (simp add: unroll)
      next
        case (Inr verify)
        show ?thesis
        proof (cases verify)
          case True
          with inner Inr less.prems have "R' = R" "S' = S" by (simp_all add: unroll)
          with sign_inner_returns [OF assms(1) inner] show ?thesis by simp
        next
          case False
          with inner Inr less.prems
          have "sign_loop message privKey pubKey rest' = Some (Inr ((R, S), rest))"
            by (simp add: unroll)
          from less.hyps [OF sh this] sub show ?thesis by blast
        qed
      qed
    qed
  qed
qed

text \<open>
  A run of the inner loop on one sample, the scalar 1, whose point is the generator: with
  the digest 0 and the private key 1 the loop leaves with \<open>S = r\<close>; with the digest
  \<open>N - r\<close> the value of \<open>S\<close> is 0 and the loop asks for the next sample.
\<close>

lemma sign_inner_one_sample:
  "sign_inner \<lparr>num = 0, prime = secp256k1_N\<rparr> \<lparr>num = 1, prime = secp256k1_P\<rparr> [1]
       = Some (Inr ((x secp256k1_G, \<lparr>num = num (x secp256k1_G), prime = secp256k1_N\<rparr>), []))
   \<and> sign_inner \<lparr>num = secp256k1_N - num (x secp256k1_G), prime = secp256k1_N\<rparr>
         \<lparr>num = 1, prime = secp256k1_P\<rparr> [1]
       = sign_inner \<lparr>num = secp256k1_N - num (x secp256k1_G), prime = secp256k1_N\<rparr>
           \<lparr>num = 1, prime = secp256k1_P\<rparr> []"
proof -
  let ?sk = "\<lparr>num = 1, prime = secp256k1_P\<rparr>"
  let ?m0 = "\<lparr>num = 0, prime = secp256k1_N\<rparr>"
  let ?m1 = "\<lparr>num = secp256k1_N - num (x secp256k1_G), prime = secp256k1_N\<rparr>"
  have g: "genPriv [1] = Some (Inr ?sk, [])"
    by (simp add: genPriv_dropWhile secp256k1_N_def)
  have p: "priv2pub ?sk None = Inr secp256k1_G"
    using priv2pub_one [of ?sk None] by simp
  have one: "(1::int) ^ nat (secp256k1_N - 2) = 1" by (rule power_one)
  have "num (x secp256k1_G) mod secp256k1_N = num (x secp256k1_G)"
    by (simp add: Gx_value secp256k1_N_def)
  then have s1: "spec_s (num ?m0) (num ?sk) (num (x secp256k1_G)) (num ?sk) = num (x secp256k1_G)"
    by (simp add: spec_s_def one)
  have s2: "spec_s (num ?m1) (num ?sk) (num (x secp256k1_G)) (num ?sk) = 0"
    by (simp add: spec_s_def one)
  have nz: "num (x secp256k1_G) \<noteq> 0" by (simp add: Gx_value)
  have h0: "prime ?m0 = secp256k1_N" and h1: "prime ?m1 = secp256k1_N" by simp_all
  note st0 = sign_inner_step [OF h0 g p, of ?sk]
  note st1 = sign_inner_step [OF h1 g p, of ?sk]
  have a: "sign_inner ?m0 ?sk [1]
       = Some (Inr ((x secp256k1_G, \<lparr>num = num (x secp256k1_G), prime = secp256k1_N\<rparr>), []))"
    unfolding st0 s1 using nz by simp
  have b: "sign_inner ?m1 ?sk [1] = sign_inner ?m1 ?sk []"
    unfolding st1 s2 by simp
  from a b show ?thesis by (intro conjI)
qed




lemma sign_inner_r_zero:
  assumes "prime message = secp256k1_N" and "genPriv rs = Some (Inr sk, rest)"
    and "priv2pub sk None = Inr pk" and "num (x pk) = secp256k1_N"
    and "spec_s (num message) (num privKey) (num (x pk)) (num sk) \<noteq> 0"
  shows "sign_inner message privKey rs =
           Some (Inr ((x pk, \<lparr>num = spec_s (num message) (num privKey) (num (x pk)) (num sk),
                               prime = secp256k1_N\<rparr>), rest))"
    and "GF (getNum (x pk)) secp256k1_N = Inr \<lparr>num = 0, prime = secp256k1_N\<rparr>"
proof -
  have nz: "num (x pk) \<noteq> 0" using assms(4) N_gt_2 by simp
  show "sign_inner message privKey rs =
           Some (Inr ((x pk, \<lparr>num = spec_s (num message) (num privKey) (num (x pk)) (num sk),
                               prime = secp256k1_N\<rparr>), rest))"
    using sign_inner_step [OF assms(1) assms(2) assms(3), of privKey] nz assms(5) by simp
  show "GF (getNum (x pk)) secp256k1_N = Inr \<lparr>num = 0, prime = secp256k1_N\<rparr>"
    using N_gt_2 by (simp add: GF_nonzero getNum_def assms(4))
qed


section \<open>Verification\<close>

lemma candidate_point:
  fixes r :: int and i :: nat
  defines "R \<equiv> \<lparr>num = r mod secp256k1_P, prime = secp256k1_P\<rparr>"
  shows "bindR (GF secp256k1_N secp256k1_P) (\<lambda>n.
     bindR (gf_mul_int n (int (i div 2))) (\<lambda>t.
     bindR (gf_add R t) (\<lambda>xc.
     bindR (pow_int xc 3) (\<lambda>x3.
     bindR (gf_add_int x3 7) (\<lambda>alpha.
     bindR (pow alpha ((secp256k1_P + 1) div 4)) (\<lambda>beta.
     bindR (gf_sub_int beta (int i)) (\<lambda>bi.
     bindR (gf_mod_int bi 2) (\<lambda>par.
     bindR (gf_eq_int par 0) (\<lambda>even_par.
     bindR (if even_par then Inr beta else gf_neg beta) (\<lambda>yc.
     f \<lparr>x = xc, y = yc\<rparr>))))))))))
   = f (wrapped_candidate r i)"
proof -
  let ?P = secp256k1_P and ?N = secp256k1_N
  define xv where "xv = (r + ?N * int (i div 2)) mod ?P"
  define alpha where "alpha = (xv ^ 3 + 7) mod ?P"
  define beta where "beta = alpha ^ nat ((?P + 1) div 4) mod ?P"
  define bi where "bi = (beta - int i) mod ?P"
  have P: "0 < ?P" "1 < ?P" "?P \<noteq> 0" using P_gt_2 by simp_all
  have e3: "3 mod (?P - 1) = 3" by (simp add: secp256k1_P_def)
  have e4: "(?P + 1) div 4 mod (?P - 1) = (?P + 1) div 4" by (simp add: secp256k1_P_def)
  have two: "2 mod ?P = 2" using P_gt_2 by simp
  have n: "GF ?N ?P = Inr \<lparr>num = ?N mod ?P, prime = ?P\<rparr>"
    using P by (simp add: GF_nonzero)
  have t: "gf_mul_int \<lparr>num = ?N mod ?P, prime = ?P\<rparr> (int (i div 2))
         = Inr \<lparr>num = (?N * int (i div 2)) mod ?P, prime = ?P\<rparr>"
    using P by (simp add: gf_mul_int_field mod_simps)
  have xc: "gf_add R \<lparr>num = (?N * int (i div 2)) mod ?P, prime = ?P\<rparr>
         = Inr \<lparr>num = xv, prime = ?P\<rparr>"
    using P by (simp add: gf_add_field R_def xv_def mod_simps)
  have x3: "pow_int \<lparr>num = xv, prime = ?P\<rparr> 3 = Inr \<lparr>num = xv ^ 3 mod ?P, prime = ?P\<rparr>"
    using P e3 by (simp add: pow_int_field mod_simps)
  have al: "gf_add_int \<lparr>num = xv ^ 3 mod ?P, prime = ?P\<rparr> 7 = Inr \<lparr>num = alpha, prime = ?P\<rparr>"
    using P by (simp add: gf_add_int_field alpha_def mod_simps)
  have be: "pow \<lparr>num = alpha, prime = ?P\<rparr> ((?P + 1) div 4) = Inr \<lparr>num = beta, prime = ?P\<rparr>"
    using P e4 by (simp add: pow_field beta_def)
  have sb: "gf_sub_int \<lparr>num = beta, prime = ?P\<rparr> (int i) = Inr \<lparr>num = bi, prime = ?P\<rparr>"
    using P by (simp add: gf_sub_int_field bi_def mod_simps)
  have bi_range: "0 \<le> bi" "bi < ?P" using P by (simp_all add: bi_def)
  have "0 \<le> bi mod 2" "bi mod 2 < ?P" using P_gt_2 by simp_all
  then have pm: "bi mod 2 mod ?P = bi mod 2" by simp
  have par: "gf_mod_int \<lparr>num = bi, prime = ?P\<rparr> 2 = Inr \<lparr>num = bi mod 2, prime = ?P\<rparr>"
    using P bi_range two pm by (simp add: gf_mod_int_def GF_nonzero gf_mod_def mpz_mod_def)
  have ev: "gf_eq_int \<lparr>num = bi mod 2, prime = ?P\<rparr> 0 = Inr (bi mod 2 = 0)"
    using P pm by (simp add: gf_eq_int_field)
  have ng: "gf_neg \<lparr>num = beta, prime = ?P\<rparr> = Inr \<lparr>num = (- beta) mod ?P, prime = ?P\<rparr>"
    using P by (simp add: gf_neg_field)
  have cand: "wrapped_candidate r i
     = \<lparr>x = \<lparr>num = xv, prime = ?P\<rparr>,
        y = \<lparr>num = (if bi mod 2 = 0 then beta else (- beta) mod ?P), prime = ?P\<rparr>\<rparr>"
    by (simp only: wrapped_candidate_def Let_def xv_def alpha_def beta_def bi_def)
  show ?thesis
    unfolding n bindR_Inr t xc x3 al be sb par ev cand
    by (simp add: ng)
qed


lemma candidate_value:
  "candidate \<lparr>num = r mod secp256k1_P, prime = secp256k1_P\<rparr> i = Inr (wrapped_candidate r i)"
  unfolding candidate_def by (rule candidate_point [where r = r and i = i and f = Inr])

lemma wrapped_candidate_on_field: "on_field (wrapped_candidate r i)"
  by (simp only: wrapped_candidate_def Let_def on_field_def point.select_convs gf.select_convs)

lemma recover_spec:
  "recover \<lparr>num = z mod secp256k1_N, prime = secp256k1_N\<rparr>
           \<lparr>num = r mod secp256k1_P, prime = secp256k1_P\<rparr>
           \<lparr>num = s mod secp256k1_P, prime = secp256k1_P\<rparr> i
   = recover_value z r s i"
proof -
  let ?P = secp256k1_P and ?N = secp256k1_N
  let ?m = "\<lparr>num = z mod ?N, prime = ?N\<rparr>"
  let ?R = "\<lparr>num = r mod ?P, prime = ?P\<rparr>"
  let ?S = "\<lparr>num = s mod ?P, prime = ?P\<rparr>"
  have N: "0 < ?N" "1 < ?N" "?N \<noteq> 0" using N_gt_2 by simp_all
  have "?N - 2 = - 1 + (?N - 1)" by simp
  then have e1: "(- 1) mod (?N - 1) = (?N - 2) mod (?N - 1)"
    by (simp only: mod_add_self2)
  have e2: "(?N - 2) mod (?N - 1) = ?N - 2" using N_gt_2 by simp
  have nm: "gf_neg ?m = Inr \<lparr>num = (- z) mod ?N, prime = ?N\<rparr>"
    using N by (simp add: gf_neg_field mod_simps)
  have rn: "GF (getNum ?R) ?N = Inr \<lparr>num = r mod ?P mod ?N, prime = ?N\<rparr>"
    using N by (simp add: GF_nonzero getNum_def)
  have rinv: "pow_int \<lparr>num = r mod ?P mod ?N, prime = ?N\<rparr> (- 1)
     = Inr \<lparr>num = (r mod ?P) ^ nat (?N - 2) mod ?N, prime = ?N\<rparr>"
    using N e1 e2 by (simp add: pow_int_field mod_simps)
  show ?thesis
    unfolding recover_def recover_value_def candidate_value nm rn rinv bindR_Inr by (rule refl)
qed

lemma recover_value_total: "\<exists>Q. recover_value z r s i = Inr Q \<and> on_field Q"
proof -
  obtain sR where sR: "priv2pub \<lparr>num = s mod secp256k1_P, prime = secp256k1_P\<rparr>
              (Some (wrapped_candidate r i)) = Inr sR" "on_field sR"
    using priv2pub_total_Some [OF wrapped_candidate_on_field] by blast
  obtain zG where zG: "priv2pub \<lparr>num = (- z) mod secp256k1_N, prime = secp256k1_N\<rparr> None
                         = Inr zG" "on_field zG"
    using priv2pub_total_None by blast
  obtain temp where temp: "add sR zG = Inr temp" "on_field temp"
    using add_total [OF sR(2) zG(2)] by blast
  obtain Q where "priv2pub \<lparr>num = (r mod secp256k1_P) ^ nat (secp256k1_N - 2) mod secp256k1_N,
               prime = secp256k1_N\<rparr> (Some temp) = Inr Q" "on_field Q"
    using priv2pub_total_Some [OF temp(2)] by blast
  then show ?thesis unfolding recover_value_def sR(1) zG(1) temp(1) bindR_Inr by blast
qed

lemma reduced_on_field: "reduced_point p \<Longrightarrow> on_field p"
  by (simp add: reduced_point_def on_field_def in_field_def)

lemma gf_sub_Inr:
  assumes "gf_sub a b = Inr c" and "prime b = m" and "0 < m"
  shows "in_field m c"
proof -
  have "prime a = prime b"
  proof (rule ccontr)
    assume "prime a \<noteq> prime b"
    with assms(1) show False by (simp add: gf_sub_def)
  qed
  with assms show ?thesis by (auto simp add: gf_sub_same in_field_def)
qed

lemma add_reduced:
  assumes "on_field q" and "on_field p" and "add p q = Inr r"
  shows "reduced_point r"
proof -
  have P: "0 < secp256k1_P" using P_gt_2 by simp
  from assms(3) have "\<exists>t rx m ry. gf_sub t (x q) = Inr rx \<and> gf_sub m (y p) = Inr ry
      \<and> r = \<lparr>x = rx, y = ry\<rparr>"
    by (clarsimp simp add: add_def bindR_eq_Inr) blast
  then obtain t rx m ry where rx: "gf_sub t (x q) = Inr rx"
    and ry: "gf_sub m (y p) = Inr ry" and r: "r = \<lparr>x = rx, y = ry\<rparr>"
    by blast
  from rx assms(1) P have "in_field secp256k1_P rx"
    by (intro gf_sub_Inr [of t "x q"]) (simp_all add: on_field_def)
  moreover from ry assms(2) P have "in_field secp256k1_P ry"
    by (intro gf_sub_Inr [of m "y p"]) (simp_all add: on_field_def)
  ultimately show ?thesis using r by (simp add: reduced_point_def)
qed

lemma priv2pub_loop_reduced:
  "reduced_point pub \<Longrightarrow> reduced_point G \<Longrightarrow> priv2pub_loop n sk pub G b = Inr r
   \<Longrightarrow> reduced_point r"
proof (induction n arbitrary: pub G b)
  case 0
  then show ?case by simp
next
  case (Suc n)
  have P: "0 < secp256k1_P" using P_gt_2 by simp
  have of: "on_field pub" "on_field G"
    using Suc.prems(1,2) by (simp_all add: reduced_on_field)
  from of have px: "0 < prime (x pub)" "0 < prime (y pub)"
    using P by (simp_all add: on_field_def)
  obtain G' where G': "add G G = Inr G'"
    using add_total [OF of(2) of(2)] by blast
  have rG': "reduced_point G'" using add_reduced [OF of(2) of(2) G'] .
  obtain s where s: "add pub G = Inr s"
    using add_total [OF of(1) of(2)] by blast
  have rs: "reduced_point s" using add_reduced [OF of(2) of(1) s] .
  let ?acc = "if b AND sk \<noteq> 0
            then bindR (gf_eq_int (x pub) 0) (\<lambda>zx.
                   if zx
                   then bindR (gf_eq_int (y pub) 0) (\<lambda>zy. if zy then Inr G else add pub G)
                   else add pub G)
            else Inr pub"
  have "\<exists>pub'. ?acc = Inr pub' \<and> reduced_point pub'"
    using px s rs Suc.prems(1,2) by (simp add: gf_eq_int_field)
  then obtain pub' where acc: "?acc = Inr pub'" "reduced_point pub'" by blast
  have "priv2pub_loop n sk pub' G' (push_bit 1 b) = Inr r"
    using Suc.prems(3) acc(1) G' by (simp del: push_bit_of_1)
  from Suc.IH [OF acc(2) rG' this] show ?case .
qed

lemma G_reduced: "reduced_point secp256k1_G"
  by (simp add: reduced_point_def in_field_def secp256k1_G_def secp256k1_P_def)

lemma zero_point_reduced: "reduced_point zero_point"
  using P_gt_2 by (simp add: reduced_point_def in_field_def zero_point_def)

lemma priv2pub_reduced:
  assumes "\<And>q. Q = Some q \<Longrightarrow> reduced_point q" and "priv2pub sk Q = Inr r"
  shows "reduced_point r"
proof -
  have "reduced_point (case Q of None \<Rightarrow> secp256k1_G | Some q \<Rightarrow> q)"
    using assms(1) G_reduced by (cases Q) simp_all
  with zero_point_reduced show ?thesis
    using assms(2) unfolding priv2pub_unfold by (rule priv2pub_loop_reduced)
qed

lemma wrapped_candidate_reduced: "reduced_point (wrapped_candidate r i)"
proof -
  let ?P = secp256k1_P
  define xv where "xv = (r + secp256k1_N * int (i div 2)) mod ?P"
  define alpha where "alpha = (xv ^ 3 + 7) mod ?P"
  define beta where "beta = alpha ^ nat ((?P + 1) div 4) mod ?P"
  define yv where "yv = (if (beta - int i) mod ?P mod 2 = 0 then beta else (- beta) mod ?P)"
  have P: "0 < ?P" using P_gt_2 by simp
  have cand: "wrapped_candidate r i = \<lparr>x = \<lparr>num = xv, prime = ?P\<rparr>, y = \<lparr>num = yv, prime = ?P\<rparr>\<rparr>"
    by (simp only: wrapped_candidate_def Let_def xv_def alpha_def beta_def yv_def)
  have bx: "0 \<le> xv" "xv < ?P" using P by (simp_all add: xv_def)
  have bb: "0 \<le> beta" "beta < ?P" using P by (simp_all add: beta_def)
  have "0 \<le> (- beta) mod ?P" "(- beta) mod ?P < ?P" using P by simp_all
  with bb have byv: "0 \<le> yv" "yv < ?P" by (simp_all add: yv_def)
  show ?thesis
    unfolding cand using bx byv by (simp add: reduced_point_def in_field_def)
qed

lemma recover_value_reduced:
  assumes "recover_value z r s i = Inr Q"
  shows "reduced_point Q"
proof -
  from assms obtain sR zG temp where
    sR: "priv2pub \<lparr>num = s mod secp256k1_P, prime = secp256k1_P\<rparr>
              (Some (wrapped_candidate r i)) = Inr sR"
    and zG: "priv2pub \<lparr>num = (- z) mod secp256k1_N, prime = secp256k1_N\<rparr> None = Inr zG"
    and temp: "add sR zG = Inr temp"
    and Q: "priv2pub \<lparr>num = (r mod secp256k1_P) ^ nat (secp256k1_N - 2) mod secp256k1_N,
               prime = secp256k1_N\<rparr> (Some temp) = Inr Q"
    unfolding recover_value_def bindR_eq_Inr by blast
  have "reduced_point sR"
    by (rule priv2pub_reduced [rotated, OF sR]) (simp add: wrapped_candidate_reduced)
  then have osR: "on_field sR" by (rule reduced_on_field)
  have "reduced_point zG"
    by (rule priv2pub_reduced [rotated, OF zG]) simp
  then have ozG: "on_field zG" by (rule reduced_on_field)
  have rt: "reduced_point temp" by (rule add_reduced [OF ozG osR temp])
  show ?thesis by (rule priv2pub_reduced [rotated, OF Q]) (simp add: rt)
qed

lemma hex_of_nat_length: "0 < k \<Longrightarrow> n < 16 ^ k \<Longrightarrow> length (hex_of_nat n) \<le> k"
proof (induction k arbitrary: n)
  case 0
  then show ?case by simp
next
  case (Suc k)
  show ?case
  proof (cases "n < 16")
    case True
    then show ?thesis by (subst hex_of_nat.simps) simp
  next
    case False
    with Suc.prems have k: "0 < k" by (cases k) simp_all
    from Suc.prems have "n div 16 < 16 ^ k" by (simp add: less_mult_imp_div_less mult.commute)
    from Suc.IH [OF k this] False show ?thesis by (subst hex_of_nat.simps) simp
  qed
qed

lemma Z064x_length:
  assumes "0 \<le> n" and "n < secp256k1_P"
  shows "length (Z064x n) = 64"
proof -
  have "secp256k1_P < 16 ^ 64" by (simp add: secp256k1_P_def)
  with assms have "n < 16 ^ 64" by simp
  with assms(1) have "nat \<bar>n\<bar> < 16 ^ 64" by (simp add: nat_less_iff)
  then have "length (hex_of_nat (nat \<bar>n\<bar>)) \<le> 64" by (intro hex_of_nat_length) simp_all
  with assms(1) show ?thesis by (simp add: Z064x_def Let_def)
qed

lemma splitXY_pubBuf:
  assumes "reduced_point Q"
  shows "splitXY (pubBuf Q) Q = Inr (compressed_key Q)"
proof -
  have len: "length (Z064x (num (x Q))) = 64"
    using assms by (intro Z064x_length) (simp_all add: reduced_point_def in_field_def)
  have "2 \<le> length (pubBuf Q)" by (simp add: pubBuf_def)
  moreover have "take 64 (drop 2 (pubBuf Q)) = Z064x (num (x Q))"
    using len by (simp add: pubBuf_def getNum_def)
  ultimately show ?thesis
    by (simp add: splitXY_def compressed_key_def mpz_mod_def getNum_def Let_def)
qed

lemma verify_loop_found:
  assumes "\<And>i. i \<in> set ids \<Longrightarrow> \<exists>Q. recover message R S i = Inr Q \<and> reduced_point Q"
  shows "verify_loop binary2Addr message R S pubKey ids =
     Inr (\<exists>i\<in>set ids. \<exists>Q. recover message R S i = Inr Q
            \<and> (binary2Addr (pubBuf Q) = pubKey \<or> binary2Addr (compressed_key Q) = pubKey))"
  using assms
proof (induction ids)
  case Nil
  then show ?case by simp
next
  case (Cons i ids)
  obtain Q where Q: "recover message R S i = Inr Q" and red: "reduced_point Q"
    using Cons.prems [of i] by auto
  have IH: "verify_loop binary2Addr message R S pubKey ids =
     Inr (\<exists>i\<in>set ids. \<exists>Q. recover message R S i = Inr Q
            \<and> (binary2Addr (pubBuf Q) = pubKey \<or> binary2Addr (compressed_key Q) = pubKey))"
    using Cons.IH Cons.prems by simp
  show ?case
    by (simp add: Q splitXY_pubBuf [OF red] IH Let_def)
qed

lemma recover_value_zero: "recover_value 0 0 0 i = Inr zero_point"
proof -
  have c: "on_field (wrapped_candidate 0 i)" by (rule wrapped_candidate_on_field)
  have sR: "priv2pub \<lparr>num = 0 mod secp256k1_P, prime = secp256k1_P\<rparr>
              (Some (wrapped_candidate 0 i)) = Inr zero_point"
    by (rule priv2pub_zero) (simp_all add: c)
  have zG: "priv2pub \<lparr>num = (- 0) mod secp256k1_N, prime = secp256k1_N\<rparr> None = Inr zero_point"
    by (rule priv2pub_zero) simp_all
  have z: "on_field zero_point" by (simp add: zero_point_def on_field_def)
  obtain temp where temp: "add zero_point zero_point = Inr temp" "on_field temp"
    using add_total [OF z z] by blast
  have z0: "(0::int) ^ nat (secp256k1_N - 2) = 0" using N_gt_2 by simp
  have "(0 mod secp256k1_P) ^ nat (secp256k1_N - 2) mod secp256k1_N = 0" by (simp add: z0)
  then have Q: "priv2pub \<lparr>num = (0 mod secp256k1_P) ^ nat (secp256k1_N - 2) mod secp256k1_N,
               prime = secp256k1_N\<rparr> (Some temp) = Inr zero_point"
    using temp(2) by (intro priv2pub_zero) simp_all
  show ?thesis unfolding recover_value_def sR zG temp(1) bindR_Inr by (rule Q)
qed

text \<open>
  The loop of the verification never fails, and each of its rounds computes
  \<open>recover_value\<close>.  It answers \<open>True\<close> if and only if, for one of the ids 0 to 3,
  the address of the uncompressed or of the compressed form of the point computed is the
  address claimed.
\<close>

lemma verify_found_iff:
  "(\<forall>i. recover \<lparr>num = z mod secp256k1_N, prime = secp256k1_N\<rparr>
               \<lparr>num = r mod secp256k1_P, prime = secp256k1_P\<rparr>
               \<lparr>num = s mod secp256k1_P, prime = secp256k1_P\<rparr> i = recover_value z r s i
        \<and> (\<exists>Q. recover_value z r s i = Inr Q))
   \<and> verify binary2Addr z r s pubKey =
       Inr (\<exists>i<4. \<exists>Q. recover_value z r s i = Inr Q
              \<and> (binary2Addr (pubBuf Q) = pubKey \<or> binary2Addr (compressed_key Q) = pubKey))"
proof -
  let ?m = "\<lparr>num = z mod secp256k1_N, prime = secp256k1_N\<rparr>"
  let ?R = "\<lparr>num = r mod secp256k1_P, prime = secp256k1_P\<rparr>"
  let ?S = "\<lparr>num = s mod secp256k1_P, prime = secp256k1_P\<rparr>"
  have total: "\<exists>Q. recover_value z r s i = Inr Q" for i
    using recover_value_total [of z r s i] by blast
  have total_reduced: "\<exists>Q. recover_value z r s i = Inr Q \<and> reduced_point Q" for i
    using total [of i] recover_value_reduced [of z r s i] by blast
  have m: "GF z secp256k1_N = Inr ?m" using N_gt_2 by (simp add: GF_nonzero)
  have R: "GF r secp256k1_P = Inr ?R" using P_gt_2 by (simp add: GF_nonzero)
  have S: "GF s secp256k1_P = Inr ?S" using P_gt_2 by (simp add: GF_nonzero)
  have "verify binary2Addr z r s pubKey = verify_loop binary2Addr ?m ?R ?S pubKey [0 ..< 4]"
    by (simp only: verify_def m R S bindR_Inr)
  also have "\<dots> = Inr (\<exists>i\<in>set [0 ..< 4]. \<exists>Q. recover ?m ?R ?S i = Inr Q
       \<and> (binary2Addr (pubBuf Q) = pubKey \<or> binary2Addr (compressed_key Q) = pubKey))"
    by (rule verify_loop_found) (simp only: recover_spec total_reduced)
  also have "\<dots> = Inr (\<exists>i<4. \<exists>Q. recover_value z r s i = Inr Q
       \<and> (binary2Addr (pubBuf Q) = pubKey \<or> binary2Addr (compressed_key Q) = pubKey))"
    by (simp only: recover_spec set_upt atLeastLessThan_iff Bex_def) simp
  finally show ?thesis using total by (simp only: recover_spec) simp
qed

text \<open>
  For a digest that is 0 modulo \<open>N\<close> the second point of the sum is the pair (0, 0):
  the loop calls \<open>add\<close> with it as the right operand, and \<open>add\<close> takes the chord to it
  (\<open>add_zero_point_not_left\<close>), where the formula of the specification has the sum with
  the identity.
\<close>

lemma recover_zero_digest:
  "recover \<lparr>num = 0, prime = secp256k1_N\<rparr>
           \<lparr>num = r mod secp256k1_P, prime = secp256k1_P\<rparr>
           \<lparr>num = s mod secp256k1_P, prime = secp256k1_P\<rparr> i
   = bindR (priv2pub \<lparr>num = s mod secp256k1_P, prime = secp256k1_P\<rparr>
              (Some (wrapped_candidate r i))) (\<lambda>sR.
     bindR (add sR zero_point) (\<lambda>temp.
     priv2pub \<lparr>num = (r mod secp256k1_P) ^ nat (secp256k1_N - 2) mod secp256k1_N,
               prime = secp256k1_N\<rparr> (Some temp)))"
proof -
  have zG: "priv2pub \<lparr>num = (- 0) mod secp256k1_N, prime = secp256k1_N\<rparr> None = Inr zero_point"
    by (rule priv2pub_zero) simp_all
  have "recover \<lparr>num = 0 mod secp256k1_N, prime = secp256k1_N\<rparr>
           \<lparr>num = r mod secp256k1_P, prime = secp256k1_P\<rparr>
           \<lparr>num = s mod secp256k1_P, prime = secp256k1_P\<rparr> i = recover_value 0 r s i"
    by (rule recover_spec)
  then show ?thesis
    unfolding recover_value_def zG bindR_Inr by simp
qed

text \<open>
  The candidate of the code beside the candidate of the specification.  Both have the
  same first coordinate and the same \<open>\<beta>\<close>; they differ in the test that chooses between
  \<open>\<beta>\<close> and \<open>- \<beta>\<close>.
\<close>

lemma wrapped_candidate_eq:
  assumes xv: "(r + secp256k1_N * int (i div 2)) mod secp256k1_P = xv"
    and al: "(xv ^ 3 + 7) mod secp256k1_P = al"
    and be: "al ^ nat ((secp256k1_P + 1) div 4) mod secp256k1_P = be"
  shows "wrapped_candidate r i =
     \<lparr>x = \<lparr>num = xv, prime = secp256k1_P\<rparr>,
      y = \<lparr>num = (if (be - int i) mod secp256k1_P mod 2 = 0 then be
                  else (- be) mod secp256k1_P), prime = secp256k1_P\<rparr>\<rparr>"
  unfolding wrapped_candidate_def Let_def xv al be by (rule refl)

lemma spec_candidate_eq:
  assumes xv: "(r + secp256k1_N * int (i div 2)) mod secp256k1_P = xv"
    and al: "(xv ^ 3 + 7) mod secp256k1_P = al"
    and be: "al ^ nat ((secp256k1_P + 1) div 4) mod secp256k1_P = be"
  shows "spec_candidate r i =
     \<lparr>x = \<lparr>num = xv, prime = secp256k1_P\<rparr>,
      y = \<lparr>num = (if (be - int i) mod 2 = 0 then be else (- be) mod secp256k1_P),
           prime = secp256k1_P\<rparr>\<rparr>"
  unfolding spec_candidate_def Let_def xv al be by (rule refl)

lemma P_minus_1_even: "(secp256k1_P - 1) mod 2 = 0"
  by (simp add: secp256k1_P_def)

text \<open>
  For the ids 0 and 1 the two tests agree: the difference \<open>\<beta> - i\<close> is negative only for
  \<open>\<beta> = 0\<close> and \<open>i = 1\<close>, and then both roots are 0.
\<close>

lemma wrapped_candidate_low_ids:
  assumes "i < 2"
  shows "wrapped_candidate r i = spec_candidate r i"
proof -
  let ?P = secp256k1_P
  define xv where "xv = (r + secp256k1_N * int (i div 2)) mod ?P"
  define al where "al = (xv ^ 3 + 7) mod ?P"
  define be where "be = al ^ nat ((?P + 1) div 4) mod ?P"
  have P: "0 < ?P" using P_gt_2 by simp
  have b: "0 \<le> be" "be < ?P" using P by (simp_all add: be_def)
  note w = wrapped_candidate_eq [OF xv_def [symmetric] al_def [symmetric] be_def [symmetric]]
  note s = spec_candidate_eq [OF xv_def [symmetric] al_def [symmetric] be_def [symmetric]]
  have "(if (be - int i) mod ?P mod 2 = 0 then be else (- be) mod ?P)
      = (if (be - int i) mod 2 = 0 then be else (- be) mod ?P)"
  proof (cases "int i \<le> be")
    case True
    then have "(be - int i) mod ?P = be - int i" using b by simp
    then show ?thesis by simp
  next
    case False
    with b assms have i: "i = 1" and be0: "be = 0" by simp_all
    have "(0 - int 1) mod ?P = ?P - 1" using P by (simp add: zmod_minus1)
    then show ?thesis unfolding i be0 using P_minus_1_even by simp
  qed
  then show ?thesis unfolding w s by (simp only:)
qed

text \<open>
  A value of \<open>r\<close> for which \<open>\<beta>\<close> is 1: with the ids 2 and 3 the first coordinate is
  \<open>r + N - P\<close>, whose cube is \<open>- 6\<close> modulo \<open>P\<close>, so \<open>\<alpha> = 1\<close> and \<open>\<beta> = 1\<close>.
  Each equation is checked on the integers, the multiple of \<open>P\<close> given.
\<close>

lemma wrap_r_reduced:
  "(0x146D3B65ADD9F54CCCA28533C88E2CBDA9486757670FD7FEF44D306BABF3CBA3 :: int) mod secp256k1_P
     = 0x146D3B65ADD9F54CCCA28533C88E2CBDA9486757670FD7FEF44D306BABF3CBA3"
  by (rule mod_pos_pos_trivial) (simp_all add: secp256k1_P_def)

lemma wrap_x:
  assumes "i div 2 = 1"
  shows "(0x146D3B65ADD9F54CCCA28533C88E2CBDA9486757670FD7FEF44D306BABF3CBA3
      + secp256k1_N * int (i div 2)) mod secp256k1_P
     = 0x146D3B65ADD9F54CCCA28533C88E2CBC63F7443E1658783AB41F8EF97C2A10B5"
proof -
  let ?x0 = "0x146D3B65ADD9F54CCCA28533C88E2CBC63F7443E1658783AB41F8EF97C2A10B5 :: int"
  have e: "0x146D3B65ADD9F54CCCA28533C88E2CBDA9486757670FD7FEF44D306BABF3CBA3
      + secp256k1_N * int (i div 2) = ?x0 + 1 * secp256k1_P"
    unfolding assms by (simp add: secp256k1_N_def secp256k1_P_def)
  have "(0x146D3B65ADD9F54CCCA28533C88E2CBDA9486757670FD7FEF44D306BABF3CBA3
      + secp256k1_N * int (i div 2)) mod secp256k1_P = ?x0 mod secp256k1_P"
    unfolding e by (simp only: mod_mult_self1)
  also have "\<dots> = ?x0"
    by (rule mod_pos_pos_trivial) (simp_all add: secp256k1_P_def)
  finally show ?thesis .
qed

lemma wrap_alpha:
  "((0x146D3B65ADD9F54CCCA28533C88E2CBC63F7443E1658783AB41F8EF97C2A10B5 :: int) ^ 3 + 7)
      mod secp256k1_P = 1"
proof -
  let ?x0 = "0x146D3B65ADD9F54CCCA28533C88E2CBC63F7443E1658783AB41F8EF97C2A10B5 :: int"
  let ?q = "0x214B06C9C17D74A7DF1370D007BCE824C913296F0B57F4369A81FED04AB834AFF8536586E72ECE2E6B22145CCC245CBD40D29188B7DD81F49100F91116D25D :: int"
  have e: "?x0 ^ 3 + 7 = 1 + ?q * secp256k1_P"
    by (simp add: secp256k1_P_def)
  have "(?x0 ^ 3 + 7) mod secp256k1_P = 1 mod secp256k1_P"
    unfolding e by (simp only: mod_mult_self1)
  also have "\<dots> = 1" using P_gt_2 by simp
  finally show ?thesis .
qed

lemma wrap_beta: "(1::int) ^ nat ((secp256k1_P + 1) div 4) mod secp256k1_P = 1"
  using P_gt_2 by (simp only: power_one) simp

lemma wrap_parity:
  "((1::int) - int 2) mod secp256k1_P mod 2 = 0"
  "((1::int) - int 3) mod secp256k1_P mod 2 \<noteq> 0"
  "((1::int) - int 2) mod 2 \<noteq> 0"
  "((1::int) - int 3) mod 2 = 0"
  "(- (1::int)) mod secp256k1_P = secp256k1_P - 1"
proof -
  have a: "((1::int) - int 2) = secp256k1_P - 1 + (- 1) * secp256k1_P" by simp
  have b: "((1::int) - int 3) = secp256k1_P - 2 + (- 1) * secp256k1_P" by simp
  have a': "((1::int) - int 2) mod secp256k1_P = secp256k1_P - 1"
    unfolding a mod_mult_self1 by (rule mod_pos_pos_trivial) (simp_all add: secp256k1_P_def)
  have b': "((1::int) - int 3) mod secp256k1_P = secp256k1_P - 2"
    unfolding b mod_mult_self1 by (rule mod_pos_pos_trivial) (simp_all add: secp256k1_P_def)
  show "((1::int) - int 2) mod secp256k1_P mod 2 = 0"
    unfolding a' by (simp add: secp256k1_P_def)
  show "((1::int) - int 3) mod secp256k1_P mod 2 \<noteq> 0"
    unfolding b' by (simp add: secp256k1_P_def)
  show "((1::int) - int 2) mod 2 \<noteq> 0" by simp
  show "((1::int) - int 3) mod 2 = 0" by simp
  show "(- (1::int)) mod secp256k1_P = secp256k1_P - 1"
    using a' by simp
qed

text \<open>
  Claim C2.  The claim is that the candidate of the recovery id \<open>i\<close> has \<open>y = \<beta>\<close> if
  \<open>(\<beta> - i) mod 2 = 0\<close> and \<open>y = - \<beta>\<close> otherwise, the root whose parity is the one
  that \<open>i\<close> encodes.  The code takes \<open>\<beta> - i\<close> in the field \<open>P\<close> before the remainder
  by 2: for \<open>\<beta> = 1\<close> and the id 2 the difference is \<open>P - 1\<close>, which is even, and the
  code takes the root 1, where \<open>(1 - 2) mod 2\<close> is 1 and the specification has the root
  \<open>P - 1\<close>; for the id 3 it is the other way round.  Both roots belong to a point of the
  curve \<open>y\<^sup>2 = x\<^sup>3 + 7\<close>.
\<close>

theorem candidate_parity_wraps:
  "candidate \<lparr>num = 0x146D3B65ADD9F54CCCA28533C88E2CBDA9486757670FD7FEF44D306BABF3CBA3,
              prime = secp256k1_P\<rparr> 2
     = Inr \<lparr>x = \<lparr>num = 0x146D3B65ADD9F54CCCA28533C88E2CBC63F7443E1658783AB41F8EF97C2A10B5,
                  prime = secp256k1_P\<rparr>,
            y = \<lparr>num = 1, prime = secp256k1_P\<rparr>\<rparr>
   \<and> spec_candidate 0x146D3B65ADD9F54CCCA28533C88E2CBDA9486757670FD7FEF44D306BABF3CBA3 2
     = \<lparr>x = \<lparr>num = 0x146D3B65ADD9F54CCCA28533C88E2CBC63F7443E1658783AB41F8EF97C2A10B5,
              prime = secp256k1_P\<rparr>,
        y = \<lparr>num = secp256k1_P - 1, prime = secp256k1_P\<rparr>\<rparr>
   \<and> candidate \<lparr>num = 0x146D3B65ADD9F54CCCA28533C88E2CBDA9486757670FD7FEF44D306BABF3CBA3,
              prime = secp256k1_P\<rparr> 3
     = Inr \<lparr>x = \<lparr>num = 0x146D3B65ADD9F54CCCA28533C88E2CBC63F7443E1658783AB41F8EF97C2A10B5,
                  prime = secp256k1_P\<rparr>,
            y = \<lparr>num = secp256k1_P - 1, prime = secp256k1_P\<rparr>\<rparr>
   \<and> spec_candidate 0x146D3B65ADD9F54CCCA28533C88E2CBDA9486757670FD7FEF44D306BABF3CBA3 3
     = \<lparr>x = \<lparr>num = 0x146D3B65ADD9F54CCCA28533C88E2CBC63F7443E1658783AB41F8EF97C2A10B5,
              prime = secp256k1_P\<rparr>,
        y = \<lparr>num = 1, prime = secp256k1_P\<rparr>\<rparr>
   \<and> (1::int) ^ 2 mod secp256k1_P
     = ((0x146D3B65ADD9F54CCCA28533C88E2CBC63F7443E1658783AB41F8EF97C2A10B5 :: int) ^ 3 + 7)
         mod secp256k1_P
   \<and> (secp256k1_P - 1) mod 2 = 0"
proof -
  let ?r0 = "0x146D3B65ADD9F54CCCA28533C88E2CBDA9486757670FD7FEF44D306BABF3CBA3 :: int"
  have d2: "(2::nat) div 2 = 1" and d3: "(3::nat) div 2 = 1" by simp_all
  note c2 = candidate_value [of ?r0 2, unfolded wrap_r_reduced]
  note c3 = candidate_value [of ?r0 3, unfolded wrap_r_reduced]
  note w2 = wrapped_candidate_eq [OF wrap_x [OF d2] wrap_alpha wrap_beta]
  note w3 = wrapped_candidate_eq [OF wrap_x [OF d3] wrap_alpha wrap_beta]
  note s2 = spec_candidate_eq [OF wrap_x [OF d2] wrap_alpha wrap_beta]
  note s3 = spec_candidate_eq [OF wrap_x [OF d3] wrap_alpha wrap_beta]
  have one: "(1::int) ^ 2 mod secp256k1_P = 1" using P_gt_2 by simp
  have ev: "(secp256k1_P - 1) mod 2 = 0" by (simp add: secp256k1_P_def)
  show ?thesis
    unfolding c2 c3 w2 w3 s2 s3 wrap_alpha one
    using wrap_parity ev by (simp only: if_True if_False simp_thms)
qed

end
